theory Spec2Isabelle
  imports Main "HOL-Library.Char_ord" "HOL-Library.Sublist"
begin

section \<open>GitHub Follower Sync: a model of main.py\<close>

text \<open>
  The program reads two policy files and a history document, fetches the followers and the
  following of one account page by page, computes whom to follow back and whom to unfollow,
  performs at most \<open>MAX_ACTIONS_PER_RUN\<close> successful actions with a random pause before each
  remote call, records the realized actions in the history and reports them over Telegram.

  Conventions of the model.
  \<^item> A Python \<open>str\<close> is a \<open>string\<close>, a \<open>char\<close> standing for a code point below 256.
    Account names and the policy files are taken to be text in that range (GitHub logins
    are letters, digits and hyphens); on it \<open>lower\<close>, \<open>isspace\<close> and \<open>strip\<close> are
    what \<open>str.lower\<close>, \<open>str.isspace\<close> and \<open>str.strip\<close> compute. Characters beyond it
    occur only in the decorative glyphs of the messages, which the model carries as the
    bytes main.py stores and only ever concatenates.
  \<^item> A Python \<open>set\<close> of strings is a \<open>string set\<close>; a list is a list.
  \<^item> The outside world is passed in: a file is its content if it exists (\<open>None\<close> if
    absent), a paginated endpoint is the response it gives to each page number, the
    mutating endpoints give a status code for each URL, the random generator is a state
    with a draw function, and the clock reading is a string. A remote call is modelled by
    the response it returns; the Telegram call, which main.py wraps in \<open>try\<close>, may also
    raise.
  \<^item> What the program does to the outside world is returned as a trace of events
    (sleeps, remote calls, the saved history, the notification request). Console output
    is left out, except for the two messages of \<open>send_telegram_message\<close>.
\<close>

subsection \<open>Configuration\<close>

definition MAX_ACTIONS_PER_RUN :: nat where
  "MAX_ACTIONS_PER_RUN = 10"

definition GITHUB_API_BASE :: string where
  "GITHUB_API_BASE = ''https://api.github.com''"

subsection \<open>Strings\<close>

text \<open>
  \<open>str.lower\<close> below code point 256: the letters A to Z and the capital letters 0xC0 to
  0xDE (without the multiplication sign 0xD7) move up by 32, all else stays.
\<close>

definition lower_char :: "char \<Rightarrow> char" where
  "lower_char c =
     (if (CHR ''A'' \<le> c \<and> c \<le> CHR ''Z'') \<or> (CHR 0xC0 \<le> c \<and> c \<le> CHR 0xDE \<and> c \<noteq> CHR 0xD7)
      then char_of (of_char c + (32::nat)) else c)"

definition lower :: "string \<Rightarrow> string" where
  "lower s = map lower_char s"

text \<open>
  \<open>str.isspace\<close> below code point 256: tab, line feed, vertical tab, form feed, carriage
  return, the four separators 0x1C to 0x1F, the space, next line 0x85 and the no-break
  space 0xA0.
\<close>

definition isspace :: "char \<Rightarrow> bool" where
  "isspace c =
     ((CHR 0x09 \<le> c \<and> c \<le> CHR 0x0D) \<or> (CHR 0x1C \<le> c \<and> c \<le> CHR 0x1F) \<or> c = CHR '' ''
      \<or> c = CHR 0x85 \<or> c = CHR 0xA0)"

text \<open>\<open>str.strip()\<close>: whitespace removed at both ends.\<close>

definition strip :: "string \<Rightarrow> string" where
  "strip s = rev (dropWhile isspace (rev (dropWhile isspace s)))"

text \<open>\<open>s.startswith(p)\<close>.\<close>

definition startswith :: "string \<Rightarrow> string \<Rightarrow> bool" where
  "startswith s p = (take (length p) s = p)"

text \<open>
  A file opened with \<open>open(filepath, "r")\<close> is read with universal newlines: a carriage
  return followed by a line feed, and a carriage return alone, each reach the program as
  one line feed.
\<close>

fun universal_newlines :: "string \<Rightarrow> string" where
  "universal_newlines [] = []"
| "universal_newlines [c] = (if c = CHR 0x0D then [CHR 0x0A] else [c])"
| "universal_newlines (c # d # cs) =
     (if c = CHR 0x0D
      then (if d = CHR 0x0A then CHR 0x0A # universal_newlines cs
            else CHR 0x0A # universal_newlines (d # cs))
      else c # universal_newlines (d # cs))"

text \<open>
  Iterating over the text yields its lines, each with its line feed; the last line has
  none when the text does not end in one.
\<close>

fun file_lines :: "string \<Rightarrow> string list" where
  "file_lines [] = []"
| "file_lines (c # cs) =
     (if c = CHR 0x0A then [c] # file_lines cs
      else (case file_lines cs of
              [] \<Rightarrow> [[c]]
            | l # ls \<Rightarrow> (c # l) # ls))"

text \<open>\<open>str(n)\<close> for a number: decimal digits, a minus sign for a negative one.\<close>

fun str_nat :: "nat \<Rightarrow> string" where
  "str_nat n =
     (if n < 10 then [char_of (48 + n)]
      else str_nat (n div 10) @ [char_of (48 + n mod 10)])"

definition str_int :: "int \<Rightarrow> string" where
  "str_int i = (if i < 0 then CHR ''-'' # str_nat (nat (- i)) else str_nat (nat i))"

subsection \<open>File operations\<close>

text \<open>
  \<open>load_list_file\<close>: the empty set when the file does not exist; otherwise the set of
  \<open>line.strip().lower()\<close> over the lines with \<open>line.strip()\<close> non-empty and not
  \<open>line.startswith("#")\<close>. The argument is the decoded content of the file as stored.
\<close>

definition load_list_file :: "string option \<Rightarrow> string set" where
  "load_list_file filepath =
     (case filepath of
        None \<Rightarrow> {}
      | Some content \<Rightarrow>
          set (map (\<lambda>line. lower (strip line))
                 (filter (\<lambda>line. strip line \<noteq> [] \<and> \<not> startswith line ''#'')
                    (file_lines (universal_newlines content)))))"

subsection \<open>The outside world\<close>

text \<open>
  A response of the GitHub API: its status code and, for a list endpoint, the \<open>login\<close> of
  each user object of the JSON array it carries.
\<close>

record response =
  status_code :: int
  json :: "string list"

text \<open>The JSON document posted to the Telegram bot (\<open>msg_text\<close> is its key \<open>text\<close>).\<close>

record telegram_data =
  chat_id :: string
  msg_text :: string
  parse_mode :: string

text \<open>The history document: \<open>history.json\<close>.\<close>

record action_record =
  user :: string
  timestamp :: string

record history =
  follows :: "action_record list"
  unfollows :: "action_record list"
  last_run :: "string option"

text \<open>What a run does to the outside world, in the order it does it.\<close>

datatype 'd event =
    Sleep 'd
  | Put string
  | Delete string
  | Save history
  | Print string
  | Post string telegram_data

text \<open>
  The environment of one run: the environment variables, the three files under
  \<open>data/\<close>, the HTTP endpoints, the random generator and the two clock readings the
  model uses (the ISO one written to the history, the formatted one of the report).
  \<open>requests_post\<close> gives \<open>Inl\<close> with the exception's message when the call raises.
\<close>

record ('d, 'g) env =
  env_GITHUB_TOKEN :: "string option"
  env_GITHUB_USERNAME :: "string option"
  env_TELEGRAM_BOT_TOKEN :: "string option"
  env_TELEGRAM_CHAT_ID :: "string option"
  whitelist_txt :: "string option"
  blacklist_txt :: "string option"
  history_json :: "history option"
  requests_get :: "string \<Rightarrow> response"
  requests_put :: "string \<Rightarrow> response"
  requests_delete :: "string \<Rightarrow> response"
  requests_post :: "string \<Rightarrow> telegram_data \<Rightarrow> string + response"
  random_uniform :: "int \<Rightarrow> int \<Rightarrow> 'g \<Rightarrow> 'd \<times> 'g"
  random_state :: 'g
  now_isoformat :: string
  now_strftime :: string

text \<open>\<open>not x\<close> for an environment variable: unset or empty.\<close>

definition falsy :: "string option \<Rightarrow> bool" where
  "falsy x = (case x of None \<Rightarrow> True | Some s \<Rightarrow> s = [])"

text \<open>\<open>os.environ.get("GITHUB_USERNAME", "TheLastKhan")\<close>.\<close>

definition GITHUB_USERNAME :: "('d, 'g) env \<Rightarrow> string" where
  "GITHUB_USERNAME e =
     (case env_GITHUB_USERNAME e of None \<Rightarrow> ''TheLastKhan'' | Some u \<Rightarrow> u)"

definition ACTION_DELAY_MIN :: int where
  "ACTION_DELAY_MIN = 2"

definition ACTION_DELAY_MAX :: int where
  "ACTION_DELAY_MAX = 5"

subsection \<open>GitHub API\<close>

definition per_page :: nat where
  "per_page = 100"

text \<open>
  \<open>get_all_pages\<close>: the \<open>while True\<close> loop, with the page number and the list collected
  so far as its state. The loop has no bound of its own: where the endpoint keeps
  answering with full pages it never returns, which is the value \<open>None\<close>.
\<close>

partial_function (option)
  pages_loop :: "(string \<Rightarrow> response) \<Rightarrow> string \<Rightarrow> nat \<Rightarrow> string list \<Rightarrow> string list option"
where
  "pages_loop get url page users =
     (let response = get (url @ ''?page='' @ str_nat page @ ''&per_page='' @ str_nat per_page)
      in if status_code response \<noteq> 200 then Some users
         else if json response = [] then Some users
         else if length (json response) < per_page then Some (users @ json response)
         else pages_loop get url (page + 1) (users @ json response))"

declare pages_loop.simps [code]

definition get_all_pages :: "(string \<Rightarrow> response) \<Rightarrow> string \<Rightarrow> string list option" where
  "get_all_pages get url = pages_loop get url 1 []"

definition get_followers :: "('d, 'g) env \<Rightarrow> string list option" where
  "get_followers e =
     get_all_pages (requests_get e) (GITHUB_API_BASE @ ''/users/'' @ GITHUB_USERNAME e @ ''/followers'')"

definition get_following :: "('d, 'g) env \<Rightarrow> string list option" where
  "get_following e =
     get_all_pages (requests_get e) (GITHUB_API_BASE @ ''/users/'' @ GITHUB_USERNAME e @ ''/following'')"

text \<open>
  \<open>follow_user\<close> and \<open>unfollow_user\<close>: one request, and whether it answered 204. The
  model returns the request made beside the result.
\<close>

definition follow_user :: "(string \<Rightarrow> response) \<Rightarrow> string \<Rightarrow> bool \<times> 'd event" where
  "follow_user put username =
     (let url = GITHUB_API_BASE @ ''/user/following/'' @ username
      in (status_code (put url) = 204, Put url))"

definition unfollow_user :: "(string \<Rightarrow> response) \<Rightarrow> string \<Rightarrow> bool \<times> 'd event" where
  "unfollow_user delete username =
     (let url = GITHUB_API_BASE @ ''/user/following/'' @ username
      in (status_code (delete url) = 204, Delete url))"

subsection \<open>History\<close>

definition load_history :: "history option \<Rightarrow> history" where
  "load_history file =
     (case file of
        None \<Rightarrow> \<lparr>follows = [], unfollows = [], last_run = None\<rparr>
      | Some h \<Rightarrow> h)"

text \<open>The slice \<open>xs[-n:]\<close> for a positive \<open>n\<close>: the last \<open>n\<close> elements, all of them when there are fewer.\<close>

definition last_entries :: "nat \<Rightarrow> 'a list \<Rightarrow> 'a list" where
  "last_entries n xs = drop (length xs - n) xs"

text \<open>
  The history update of \<open>sync_followers\<close> (between \<open>load_history\<close> and \<open>save_history\<close>):
  the two \<open>for\<close> loops that append, the assignment of \<open>last_run\<close>, the two slices.
\<close>

definition update_history :: "history \<Rightarrow> string list \<Rightarrow> string list \<Rightarrow> string \<Rightarrow> history" where
  "update_history history0 fs us now =
     (let h1 = foldl (\<lambda>h u. h\<lparr>follows := follows h @ [\<lparr>user = u, timestamp = now\<rparr>]\<rparr>) history0 fs;
          h2 = foldl (\<lambda>h u. h\<lparr>unfollows := unfollows h @ [\<lparr>user = u, timestamp = now\<rparr>]\<rparr>) h1 us;
          h3 = h2\<lparr>last_run := Some now\<rparr>;
          h4 = h3\<lparr>follows := last_entries 1000 (follows h3)\<rparr>;
          h5 = h4\<lparr>unfollows := last_entries 1000 (unfollows h4)\<rparr>
      in h5)"

subsection \<open>Telegram\<close>

text \<open>The decorative glyphs of the messages, as main.py stores them.\<close>

definition GLYPH_WARNING :: string where
  "GLYPH_WARNING = [CHR 0xE2, CHR 0x80, CHR 0x9A, CHR 0xC3, CHR 0xB6, CHR 0xE2, CHR 0x80, CHR 0xA0,
     CHR 0xC3, CHR 0x94, CHR 0xE2, CHR 0x88, CHR 0x8F, CHR 0xC3, CHR 0xA8]"

definition GLYPH_CROSS :: string where
  "GLYPH_CROSS = [CHR 0xE2, CHR 0x80, CHR 0x9A, CHR 0xC3, CHR 0xB9, CHR 0xC3, CHR 0xA5]"

definition GLYPH_SYNC :: string where
  "GLYPH_SYNC = [CHR 0xEF, CHR 0xA3, CHR 0xBF, CHR 0xC3, CHR 0xBC, CHR 0xC3, CHR 0xAE, CHR 0xC3, CHR 0x91]"

definition GLYPH_CALENDAR :: string where
  "GLYPH_CALENDAR = [CHR 0xEF, CHR 0xA3, CHR 0xBF, CHR 0xC3, CHR 0xBC, CHR 0xC3, CHR 0xAC, CHR 0xC3, CHR 0x96]"

definition GLYPH_CHART :: string where
  "GLYPH_CHART = [CHR 0xEF, CHR 0xA3, CHR 0xBF, CHR 0xC3, CHR 0xBC, CHR 0xC3, CHR 0xAC, CHR 0xC3, CHR 0xA4]"

definition GLYPH_BULLET :: string where
  "GLYPH_BULLET = [CHR 0xE2, CHR 0x80, CHR 0x9A, CHR 0xC3, CHR 0x84, CHR 0xC2, CHR 0xA2]"

definition GLYPH_CHECK :: string where
  "GLYPH_CHECK = [CHR 0xE2, CHR 0x80, CHR 0x9A, CHR 0xC3, CHR 0xBA, CHR 0xC3, CHR 0x96]"

definition GLYPH_SPARKLES :: string where
  "GLYPH_SPARKLES = [CHR 0xE2, CHR 0x80, CHR 0x9A, CHR 0xC3, CHR 0xBA, CHR 0xC2, CHR 0xAE]"

text \<open>
  \<open>send_telegram_message\<close>: without both credentials it prints a warning and returns
  \<open>False\<close>; otherwise it posts the message, returns whether the answer was 200, and
  catches an exception of the call (printing it, returning \<open>False\<close>).
\<close>

definition send_telegram_message :: "('d, 'g) env \<Rightarrow> string \<Rightarrow> bool \<times> 'd event list" where
  "send_telegram_message e message =
     (if falsy (env_TELEGRAM_BOT_TOKEN e) \<or> falsy (env_TELEGRAM_CHAT_ID e)
      then (False, [Print (GLYPH_WARNING @ '' Telegram not configured, skipping notification'')])
      else
        (let url = ''https://api.telegram.org/bot'' @ the (env_TELEGRAM_BOT_TOKEN e) @ ''/sendMessage'';
             data = \<lparr>chat_id = the (env_TELEGRAM_CHAT_ID e), msg_text = message, parse_mode = ''HTML''\<rparr>
         in case requests_post e url data of
              Inr response \<Rightarrow> (status_code response = 200, [Post url data])
            | Inl exn \<Rightarrow> (False, [Post url data, Print (GLYPH_CROSS @ '' Telegram error: '' @ exn)])))"

text \<open>The \<open>stats\<close> dictionary of the report: its keys \<open>followers\<close> and \<open>following\<close>.\<close>

record stats =
  stats_followers :: int
  stats_following :: int

text \<open>
  \<open>format_telegram_report(followed, unfollowed, stats)\<close>, with the clock reading it
  formats as \<open>now\<close>. The message is built by appending, as in main.py; \<open>fs\<close> and \<open>us\<close>
  stand for \<open>followed\<close> and \<open>unfollowed\<close>.
\<close>

definition format_telegram_report :: "string \<Rightarrow> string list \<Rightarrow> string list \<Rightarrow> stats \<Rightarrow> string" where
  "format_telegram_report now fs us st =
     (let message = GLYPH_SYNC @ '' <b>GitHub Follower Sync Report</b>\<newline>'';
          message = message @ GLYPH_CALENDAR @ '' '' @ now @ ''\<newline>\<newline>'';
          message = message @ GLYPH_CHART @ '' <b>Stats:</b>\<newline>'';
          message = message @ ''  '' @ GLYPH_BULLET @ '' Followers: '' @ str_int (stats_followers st) @ ''\<newline>'';
          message = message @ ''  '' @ GLYPH_BULLET @ '' Following: '' @ str_int (stats_following st) @ ''\<newline>\<newline>'';
          message =
            (if fs \<noteq> [] then
               (let message = message @ GLYPH_CHECK @ '' <b>Followed Back ('' @ str_int (int (length fs)) @ ''):</b>\<newline>'';
                    message = foldl (\<lambda>message user. message @ ''  '' @ GLYPH_BULLET @ '' @'' @ user @ ''\<newline>'')
                                message (take 10 fs);
                    message = (if length fs > 10
                               then message @ ''  ... and '' @ str_int (int (length fs) - 10) @ '' more\<newline>''
                               else message)
                in message @ ''\<newline>'')
             else message);
          message =
            (if us \<noteq> [] then
               (let message = message @ GLYPH_CROSS @ '' <b>Unfollowed ('' @ str_int (int (length us)) @ ''):</b>\<newline>'';
                    message = foldl (\<lambda>message user. message @ ''  '' @ GLYPH_BULLET @ '' @'' @ user @ ''\<newline>'')
                                message (take 10 us);
                    message = (if length us > 10
                               then message @ ''  ... and '' @ str_int (int (length us) - 10) @ '' more\<newline>''
                               else message)
                in message @ ''\<newline>'')
             else message);
          message =
            (if fs = [] \<and> us = []
             then message @ GLYPH_SPARKLES @ '' No changes needed - everything is in sync!''
             else message)
      in message)"

subsection \<open>Main logic\<close>

text \<open>
  Whom to follow: the loop over \<open>followers\<close> that appends to \<open>to_follow\<close>. Whom to
  unfollow: the loop over \<open>following\<close> that appends to \<open>to_unfollow\<close>.
\<close>

definition find_to_follow :: "string list \<Rightarrow> string set \<Rightarrow> string set \<Rightarrow> string list" where
  "find_to_follow followers following_set blacklist =
     foldl (\<lambda>to_follow user.
              (let user_lower = lower user
               in if user_lower \<notin> following_set \<and> user_lower \<notin> blacklist
                  then to_follow @ [user] else to_follow))
       [] followers"

definition find_to_unfollow :: "string list \<Rightarrow> string set \<Rightarrow> string set \<Rightarrow> string list" where
  "find_to_unfollow following followers_set whitelist =
     foldl (\<lambda>to_unfollow user.
              (let user_lower = lower user
               in if user_lower \<notin> followers_set \<and> user_lower \<notin> whitelist
                  then to_unfollow @ [user] else to_unfollow))
       [] following"

text \<open>
  The analysis step of \<open>sync_followers\<close>: the two lower-cased sets, then the two lists.
\<close>

definition analysis ::
  "string list \<Rightarrow> string list \<Rightarrow> string set \<Rightarrow> string set \<Rightarrow> string list \<times> string list"
where
  "analysis followers following whitelist blacklist =
     (let followers_set = set (map lower followers);
          following_set = set (map lower following);
          to_follow = find_to_follow followers following_set blacklist;
          to_unfollow = find_to_unfollow following followers_set whitelist
      in (to_follow, to_unfollow))"

text \<open>
  The state of the action phase: the lists of realized actions, the shared counter, the
  random generator, and the events so far.
\<close>

record ('d, 'g) actions =
  followed :: "string list"
  unfollowed :: "string list"
  action_count :: nat
  rng :: 'g
  events :: "'d event list"

text \<open>
  The two action loops. Each iteration first checks the counter against the cap (\<open>break\<close>),
  then draws a delay and sleeps, then makes the remote call; a successful call appends the
  user and increments the counter, a failed one changes neither.
\<close>

fun follow_loop ::
  "nat \<Rightarrow> ('d, 'g) env \<Rightarrow> string list \<Rightarrow> ('d, 'g) actions \<Rightarrow> ('d, 'g) actions"
where
  "follow_loop cap e [] s = s"
| "follow_loop cap e (u # to_follow) s =
     (if action_count s \<ge> cap then s
      else
        (let (delay, g) = random_uniform e ACTION_DELAY_MIN ACTION_DELAY_MAX (rng s);
             (ok, call) = follow_user (requests_put e) u;
             s = s\<lparr>rng := g, events := events s @ [Sleep delay, call]\<rparr>
         in if ok
            then follow_loop cap e to_follow
                   (s\<lparr>followed := followed s @ [u], action_count := action_count s + 1\<rparr>)
            else follow_loop cap e to_follow s))"

fun unfollow_loop ::
  "nat \<Rightarrow> ('d, 'g) env \<Rightarrow> string list \<Rightarrow> ('d, 'g) actions \<Rightarrow> ('d, 'g) actions"
where
  "unfollow_loop cap e [] s = s"
| "unfollow_loop cap e (u # to_unfollow) s =
     (if action_count s \<ge> cap then s
      else
        (let (delay, g) = random_uniform e ACTION_DELAY_MIN ACTION_DELAY_MAX (rng s);
             (ok, call) = unfollow_user (requests_delete e) u;
             s = s\<lparr>rng := g, events := events s @ [Sleep delay, call]\<rparr>
         in if ok
            then unfollow_loop cap e to_unfollow
                   (s\<lparr>unfollowed := unfollowed s @ [u], action_count := action_count s + 1\<rparr>)
            else unfollow_loop cap e to_unfollow s))"

text \<open>
  The action phase of \<open>sync_followers\<close>: both lists empty and the counter at zero, then the
  follow loop, then the unfollow loop on the state the follow loop left.
\<close>

definition perform_actions ::
  "nat \<Rightarrow> ('d, 'g) env \<Rightarrow> string list \<Rightarrow> string list \<Rightarrow> ('d, 'g) actions"
where
  "perform_actions cap e to_follow to_unfollow =
     (let s = \<lparr>followed = [], unfollowed = [], action_count = 0, rng = random_state e, events = []\<rparr>;
          s = follow_loop cap e to_follow s;
          s = unfollow_loop cap e to_unfollow s
      in s)"

text \<open>
  The rest of \<open>sync_followers\<close> after the action phase: the history is loaded, updated and
  saved, the stats are computed, and the report is sent when a list is non-empty.
\<close>

definition finish_run ::
  "('d, 'g) env \<Rightarrow> string list \<Rightarrow> string list \<Rightarrow> ('d, 'g) actions \<Rightarrow> ('d, 'g) actions"
where
  "finish_run e followers following s =
     (let history1 = update_history (load_history (history_json e)) (followed s) (unfollowed s)
                       (now_isoformat e);
          s = s\<lparr>events := events s @ [Save history1]\<rparr>;
          final_followers = int (length followers);
          final_following = int (length following) + int (length (followed s)) - int (length (unfollowed s));
          st = \<lparr>stats_followers = final_followers, stats_following = final_following\<rparr>
      in if followed s \<noteq> [] \<or> unfollowed s \<noteq> []
         then (let message = format_telegram_report (now_strftime e) (followed s) (unfollowed s) st
               in s\<lparr>events := events s @ snd (send_telegram_message e message)\<rparr>)
         else s)"

text \<open>
  A run either stops at the token check, having done nothing, or completes with the state
  it reached.
\<close>

datatype ('d, 'g) run = Aborted | Completed "('d, 'g) actions"

text \<open>\<open>sync_followers\<close>. \<open>None\<close>: a fetch never returned.\<close>

definition sync_followers :: "('d, 'g) env \<Rightarrow> ('d, 'g) run option" where
  "sync_followers e =
     (if falsy (env_GITHUB_TOKEN e) then Some Aborted
      else
        (let whitelist = load_list_file (whitelist_txt e);
             blacklist = load_list_file (blacklist_txt e)
         in case get_followers e of
              None \<Rightarrow> None
            | Some followers \<Rightarrow>
                (case get_following e of
                   None \<Rightarrow> None
                 | Some following \<Rightarrow>
                     (let (to_follow, to_unfollow) = analysis followers following whitelist blacklist;
                          s = perform_actions MAX_ACTIONS_PER_RUN e to_follow to_unfollow
                      in Some (Completed (finish_run e followers following s))))))"

subsection \<open>Reading the trace\<close>

text \<open>The remote calls of the action phase, and the events of a notification.\<close>

fun is_call :: "'d event \<Rightarrow> bool" where
  "is_call (Put url) = True"
| "is_call (Delete url) = True"
| "is_call ev = False"

fun is_delete :: "'d event \<Rightarrow> bool" where
  "is_delete (Delete url) = True"
| "is_delete ev = False"

fun is_notification :: "'d event \<Rightarrow> bool" where
  "is_notification (Print line) = True"
| "is_notification (Post url data) = True"
| "is_notification ev = False"

text \<open>The URL both mutating calls address for a user.\<close>

definition following_url :: "string \<Rightarrow> string" where
  "following_url username = GITHUB_API_BASE @ ''/user/following/'' @ username"

text \<open>Whether a remote call of the trace was answered with 204 in the environment \<open>e\<close>.\<close>

fun succeeded :: "('d, 'g) env \<Rightarrow> 'd event \<Rightarrow> bool" where
  "succeeded e (Put url) = (status_code (requests_put e url) = 204)"
| "succeeded e (Delete url) = (status_code (requests_delete e url) = 204)"
| "succeeded e ev = False"

text \<open>The realized actions of a run: none when it stopped at the token check.\<close>

fun realized :: "('d, 'g) run \<Rightarrow> string list \<times> string list" where
  "realized Aborted = ([], [])"
| "realized (Completed s) = (followed s, unfollowed s)"

subsection \<open>The report, part by part\<close>

text \<open>
  The report as its description reads, to be compared with \<open>format_telegram_report\<close>: a
  header with the clock reading and the two counts; for a list of users a section, absent
  when the list is empty, with a title line that gives the length of the list, one line for
  each of its first 10 users and, when there are more than 10, a line that tells how many
  more; and the line of a run without changes.
\<close>

definition report_header :: "string \<Rightarrow> stats \<Rightarrow> string" where
  "report_header now st =
     GLYPH_SYNC @ '' <b>GitHub Follower Sync Report</b>\<newline>''
     @ GLYPH_CALENDAR @ '' '' @ now @ ''\<newline>\<newline>''
     @ GLYPH_CHART @ '' <b>Stats:</b>\<newline>''
     @ ''  '' @ GLYPH_BULLET @ '' Followers: '' @ str_int (stats_followers st) @ ''\<newline>''
     @ ''  '' @ GLYPH_BULLET @ '' Following: '' @ str_int (stats_following st) @ ''\<newline>\<newline>''"

definition report_entry :: "string \<Rightarrow> string" where
  "report_entry username = ''  '' @ GLYPH_BULLET @ '' @'' @ username @ ''\<newline>''"

definition report_section :: "string \<Rightarrow> string list \<Rightarrow> string" where
  "report_section title xs =
     (if xs = [] then []
      else title @ '' ('' @ str_int (int (length xs)) @ ''):</b>\<newline>''
           @ concat (map report_entry (take 10 xs))
           @ (if 10 < length xs
              then ''  ... and '' @ str_int (int (length xs) - 10) @ '' more\<newline>''
              else [])
           @ ''\<newline>'')"

definition report_no_changes :: string where
  "report_no_changes = GLYPH_SPARKLES @ '' No changes needed - everything is in sync!''"

subsection \<open>Reading the pages\<close>

text \<open>
  The URL \<open>get_all_pages\<close> requests for a page, and what makes its loop go on to the next
  page: the status 200 and a page of at least \<open>per_page\<close> users.
\<close>

definition page_url :: "string \<Rightarrow> nat \<Rightarrow> string" where
  "page_url url page = url @ ''?page='' @ str_nat page @ ''&per_page='' @ str_nat per_page"

definition full_page :: "(string \<Rightarrow> response) \<Rightarrow> string \<Rightarrow> nat \<Rightarrow> bool" where
  "full_page get url page =
     (status_code (get (page_url url page)) = 200 \<and> per_page \<le> length (json (get (page_url url page))))"

subsection \<open>Example environments\<close>

text \<open>
  Concrete environments for the examples: no policy files, no history, no Telegram
  credentials, a generator that counts its draws and gives delays between 2 and 5, and
  the endpoints passed in. \<open>serves\<close> is a list endpoint that answers the first page of
  the default account's followers and following with the given users.
\<close>

definition answer :: "int \<Rightarrow> string \<Rightarrow> response" where
  "answer code url = \<lparr>status_code = code, json = []\<rparr>"

definition fails_for :: "string \<Rightarrow> string \<Rightarrow> response" where
  "fails_for username url =
     (if url = following_url username then answer 404 url else answer 204 url)"

definition serves :: "string list \<Rightarrow> string list \<Rightarrow> string \<Rightarrow> response" where
  "serves fl fg url =
     (if url = GITHUB_API_BASE @ ''/users/TheLastKhan/followers?page=1&per_page=100''
      then \<lparr>status_code = 200, json = fl\<rparr>
      else if url = GITHUB_API_BASE @ ''/users/TheLastKhan/following?page=1&per_page=100''
      then \<lparr>status_code = 200, json = fg\<rparr>
      else \<lparr>status_code = 200, json = []\<rparr>)"

definition example_env ::
  "(string \<Rightarrow> response) \<Rightarrow> (string \<Rightarrow> response) \<Rightarrow> (string \<Rightarrow> response) \<Rightarrow> (nat, nat) env"
where
  "example_env get put del =
     \<lparr>env_GITHUB_TOKEN = Some ''token'', env_GITHUB_USERNAME = None,
      env_TELEGRAM_BOT_TOKEN = None, env_TELEGRAM_CHAT_ID = None,
      whitelist_txt = None, blacklist_txt = None, history_json = None,
      requests_get = get, requests_put = put, requests_delete = del,
      requests_post = (\<lambda>url data. Inr (answer 200 url)),
      random_uniform = (\<lambda>lo hi g. (2 + g mod 4, Suc g)), random_state = 0,
      now_isoformat = ''2025-01-01T00:00:00'', now_strftime = ''2025-01-01 00:00:00''\<rparr>"

text \<open>
  A list endpoint given by its pages: the \<open>n\<close>-th response of the list for page \<open>n\<close> of
  \<open>url\<close>, and 404 for every other request.
\<close>

definition serves_pages :: "string \<Rightarrow> response list \<Rightarrow> string \<Rightarrow> response" where
  "serves_pages url pages u =
     (case find (\<lambda>(page, r). u = page_url url page) (zip [1..<Suc (length pages)] pages) of
        Some (page, r) \<Rightarrow> r
      | None \<Rightarrow> \<lparr>status_code = 404, json = []\<rparr>)"

section \<open>Properties\<close>

subsection \<open>The analysis step\<close>

lemma find_to_follow_foldl:
  "foldl (\<lambda>to_follow user.
              (let user_lower = lower user
               in if user_lower \<notin> A \<and> user_lower \<notin> B
                  then to_follow @ [user] else to_follow)) acc xs
   = acc @ filter (\<lambda>u. lower u \<notin> A \<and> lower u \<notin> B) xs"
  by (induction xs arbitrary: acc) (simp_all add: Let_def)

lemma find_to_follow_filter:
  "find_to_follow followers following_set blacklist =
     filter (\<lambda>u. lower u \<notin> following_set \<and> lower u \<notin> blacklist) followers"
  by (simp add: find_to_follow_def find_to_follow_foldl)

lemma find_to_unfollow_filter:
  "find_to_unfollow following followers_set whitelist =
     filter (\<lambda>u. lower u \<notin> followers_set \<and> lower u \<notin> whitelist) following"
  by (simp add: find_to_unfollow_def find_to_follow_foldl)

lemma analysis_filter:
  "analysis followers following whitelist blacklist =
     (filter (\<lambda>u. lower u \<notin> set (map lower following) \<and> lower u \<notin> blacklist) followers,
      filter (\<lambda>u. lower u \<notin> set (map lower followers) \<and> lower u \<notin> whitelist) following)"
  by (simp add: analysis_def Let_def find_to_follow_filter find_to_unfollow_filter)

text \<open>
  C3. \<open>to_follow\<close> is exactly the followers, in their order and spelling, whose lower-cased
  form is neither in the lower-cased following set nor in the blacklist; \<open>to_unfollow\<close> is
  exactly the following, in their order, whose lower-cased form is neither in the
  lower-cased followers set nor in the whitelist. So when a follower \<open>u\<close> and a following
  \<open>v\<close> agree up to case, neither of them is in either list.
\<close>

theorem analysis_lists_exact:
  "fst (analysis followers following whitelist blacklist) =
     filter (\<lambda>u. lower u \<notin> lower ` set following \<and> lower u \<notin> blacklist) followers
   \<and> snd (analysis followers following whitelist blacklist) =
     filter (\<lambda>u. lower u \<notin> lower ` set followers \<and> lower u \<notin> whitelist) following
   \<and> (\<forall>u v. u \<in> set followers \<and> v \<in> set following \<and> lower u = lower v \<longrightarrow>
         u \<notin> set (fst (analysis followers following whitelist blacklist)) \<and>
         v \<notin> set (fst (analysis followers following whitelist blacklist)) \<and>
         u \<notin> set (snd (analysis followers following whitelist blacklist)) \<and>
         v \<notin> set (snd (analysis followers following whitelist blacklist)))"
proof (intro conjI allI impI)
  show "fst (analysis followers following whitelist blacklist) =
     filter (\<lambda>u. lower u \<notin> lower ` set following \<and> lower u \<notin> blacklist) followers"
    by (simp add: analysis_filter)
  show "snd (analysis followers following whitelist blacklist) =
     filter (\<lambda>u. lower u \<notin> lower ` set followers \<and> lower u \<notin> whitelist) following"
    by (simp add: analysis_filter)
next
  fix u v
  assume h: "u \<in> set followers \<and> v \<in> set following \<and> lower u = lower v"
  then have both: "lower u \<in> lower ` set following" "lower u \<in> lower ` set followers"
    "lower v \<in> lower ` set following" "lower v \<in> lower ` set followers"
    by (metis imageI)+
  show "u \<notin> set (fst (analysis followers following whitelist blacklist))"
    using both by (simp add: analysis_filter)
  show "v \<notin> set (fst (analysis followers following whitelist blacklist))"
    using both by (simp add: analysis_filter)
  show "u \<notin> set (snd (analysis followers following whitelist blacklist))"
    using both by (simp add: analysis_filter)
  show "v \<notin> set (snd (analysis followers following whitelist blacklist))"
    using both by (simp add: analysis_filter)
qed

theorem analysis_lists_exact_witness:
  "''foo'' \<in> set [''foo'', ''Bar''] \<and> ''Foo'' \<in> set [''Foo'', ''baz''] \<and> lower ''foo'' = lower ''Foo''
   \<and> ''foo'' \<notin> set (fst (analysis [''foo'', ''Bar''] [''Foo'', ''baz''] {} {}))
   \<and> ''Foo'' \<notin> set (snd (analysis [''foo'', ''Bar''] [''Foo'', ''baz''] {} {}))
   \<and> analysis [''foo'', ''Bar''] [''Foo'', ''baz''] {} {} = ([''Bar''], [''baz''])"
proof -
  have low: "lower ''foo'' = lower ''Foo''" by code_simp
  have mem: "''foo'' \<in> set [''foo'', ''Bar''] \<and> ''Foo'' \<in> set [''Foo'', ''baz''] \<and> lower ''foo'' = lower ''Foo''"
    using low by simp
  note c = analysis_lists_exact [of "[''foo'', ''Bar'']" "[''Foo'', ''baz'']" "{}" "{}",
      THEN conjunct2, THEN conjunct2, rule_format, of "''foo''" "''Foo''", OF mem]
  have val: "analysis [''foo'', ''Bar''] [''Foo'', ''baz''] {} {} = ([''Bar''], [''baz''])"
    by code_simp
  show ?thesis using c mem val by blast
qed

subsection \<open>The action phase\<close>

lemma follow_user_eq:
  "follow_user put u = (status_code (put (following_url u)) = 204, Put (following_url u))"
  by (simp add: follow_user_def following_url_def Let_def)

lemma unfollow_user_eq:
  "unfollow_user del u = (status_code (del (following_url u)) = 204, Delete (following_url u))"
  by (simp add: unfollow_user_def following_url_def Let_def)

lemma follow_loop_Cons:
  "follow_loop cap e (u # tf) s =
     (if cap \<le> action_count s then s
      else follow_loop cap e tf
        (if status_code (requests_put e (following_url u)) = 204
         then s\<lparr>rng := snd (random_uniform e ACTION_DELAY_MIN ACTION_DELAY_MAX (rng s)),
                 events := events s @ [Sleep (fst (random_uniform e ACTION_DELAY_MIN ACTION_DELAY_MAX (rng s))),
                                       Put (following_url u)],
                 followed := followed s @ [u], action_count := Suc (action_count s)\<rparr>
         else s\<lparr>rng := snd (random_uniform e ACTION_DELAY_MIN ACTION_DELAY_MAX (rng s)),
                 events := events s @ [Sleep (fst (random_uniform e ACTION_DELAY_MIN ACTION_DELAY_MAX (rng s))),
                                       Put (following_url u)]\<rparr>))"
  by (simp add: follow_user_eq Let_def split: prod.splits)

lemma unfollow_loop_Cons:
  "unfollow_loop cap e (u # tu) s =
     (if cap \<le> action_count s then s
      else unfollow_loop cap e tu
        (if status_code (requests_delete e (following_url u)) = 204
         then s\<lparr>rng := snd (random_uniform e ACTION_DELAY_MIN ACTION_DELAY_MAX (rng s)),
                 events := events s @ [Sleep (fst (random_uniform e ACTION_DELAY_MIN ACTION_DELAY_MAX (rng s))),
                                       Delete (following_url u)],
                 unfollowed := unfollowed s @ [u], action_count := Suc (action_count s)\<rparr>
         else s\<lparr>rng := snd (random_uniform e ACTION_DELAY_MIN ACTION_DELAY_MAX (rng s)),
                 events := events s @ [Sleep (fst (random_uniform e ACTION_DELAY_MIN ACTION_DELAY_MAX (rng s))),
                                       Delete (following_url u)]\<rparr>))"
  by (simp add: unfollow_user_eq Let_def split: prod.splits)

lemmas loop_Cons = follow_loop_Cons unfollow_loop_Cons
declare follow_loop.simps(2) [simp del] unfollow_loop.simps(2) [simp del]

lemma follow_loop_unfollowed: "unfollowed (follow_loop cap e tf s) = unfollowed s"
  by (induction tf arbitrary: s) (simp_all add: loop_Cons)

lemma unfollow_loop_followed: "followed (unfollow_loop cap e tu s) = followed s"
  by (induction tu arbitrary: s) (simp_all add: loop_Cons)

lemma follow_loop_count:
  "int (action_count (follow_loop cap e tf s)) - int (length (followed (follow_loop cap e tf s))) =
     int (action_count s) - int (length (followed s))"
  by (induction tf arbitrary: s) (simp_all add: loop_Cons)

lemma unfollow_loop_count:
  "int (action_count (unfollow_loop cap e tu s)) - int (length (unfollowed (unfollow_loop cap e tu s))) =
     int (action_count s) - int (length (unfollowed s))"
  by (induction tu arbitrary: s) (simp_all add: loop_Cons)

lemma follow_loop_cap:
  "action_count s \<le> cap \<Longrightarrow> action_count (follow_loop cap e tf s) \<le> cap"
  by (induction tf arbitrary: s) (simp_all add: loop_Cons)

lemma unfollow_loop_cap:
  "action_count s \<le> cap \<Longrightarrow> action_count (unfollow_loop cap e tu s) \<le> cap"
  by (induction tu arbitrary: s) (simp_all add: loop_Cons)

lemma unfollow_loop_exhausted:
  "cap \<le> action_count s \<Longrightarrow> unfollow_loop cap e tu s = s"
  by (cases tu) (simp_all add: loop_Cons)

lemma follow_loop_calls:
  "\<exists>k. filter is_call (events (follow_loop cap e tf s)) =
         filter is_call (events s) @ map (\<lambda>u. Put (following_url u)) (take k tf)"
proof (induction tf arbitrary: s)
  case Nil
  show ?case by simp
next
  case (Cons u tf)
  show ?case
  proof (cases "cap \<le> action_count s")
    case True
    then have "filter is_call (events (follow_loop cap e (u # tf) s)) =
         filter is_call (events s) @ map (\<lambda>u. Put (following_url u)) (take 0 (u # tf))"
      by (simp add: loop_Cons)
    then show ?thesis by blast
  next
    case False
    let ?s' = "(if status_code (requests_put e (following_url u)) = 204
         then s\<lparr>rng := snd (random_uniform e ACTION_DELAY_MIN ACTION_DELAY_MAX (rng s)),
                 events := events s @ [Sleep (fst (random_uniform e ACTION_DELAY_MIN ACTION_DELAY_MAX (rng s))),
                                       Put (following_url u)],
                 followed := followed s @ [u], action_count := Suc (action_count s)\<rparr>
         else s\<lparr>rng := snd (random_uniform e ACTION_DELAY_MIN ACTION_DELAY_MAX (rng s)),
                 events := events s @ [Sleep (fst (random_uniform e ACTION_DELAY_MIN ACTION_DELAY_MAX (rng s))),
                                       Put (following_url u)]\<rparr>)"
    from Cons.IH [of ?s'] obtain k where
      k: "filter is_call (events (follow_loop cap e tf ?s')) =
         filter is_call (events ?s') @ map (\<lambda>u. Put (following_url u)) (take k tf)"
      by blast
    have "filter is_call (events (follow_loop cap e (u # tf) s)) =
         filter is_call (events s) @ map (\<lambda>u. Put (following_url u)) (take (Suc k) (u # tf))"
      using False k by (simp add: loop_Cons)
    then show ?thesis by blast
  qed
qed


lemma unfollow_loop_calls:
  "\<exists>m. filter is_call (events (unfollow_loop cap e tu s)) =
         filter is_call (events s) @ map (\<lambda>u. Delete (following_url u)) (take m tu)"
proof (induction tu arbitrary: s)
  case Nil
  show ?case by simp
next
  case (Cons u tu)
  show ?case
  proof (cases "cap \<le> action_count s")
    case True
    then have "filter is_call (events (unfollow_loop cap e (u # tu) s)) =
         filter is_call (events s) @ map (\<lambda>u. Delete (following_url u)) (take 0 (u # tu))"
      by (simp add: loop_Cons)
    then show ?thesis by blast
  next
    case False
    let ?s' = "(if status_code (requests_delete e (following_url u)) = 204
         then s\<lparr>rng := snd (random_uniform e ACTION_DELAY_MIN ACTION_DELAY_MAX (rng s)),
                 events := events s @ [Sleep (fst (random_uniform e ACTION_DELAY_MIN ACTION_DELAY_MAX (rng s))),
                                       Delete (following_url u)],
                 unfollowed := unfollowed s @ [u], action_count := Suc (action_count s)\<rparr>
         else s\<lparr>rng := snd (random_uniform e ACTION_DELAY_MIN ACTION_DELAY_MAX (rng s)),
                 events := events s @ [Sleep (fst (random_uniform e ACTION_DELAY_MIN ACTION_DELAY_MAX (rng s))),
                                       Delete (following_url u)]\<rparr>)"
    from Cons.IH [of ?s'] obtain m where
      m: "filter is_call (events (unfollow_loop cap e tu ?s')) =
         filter is_call (events ?s') @ map (\<lambda>u. Delete (following_url u)) (take m tu)"
      by blast
    have "filter is_call (events (unfollow_loop cap e (u # tu) s)) =
         filter is_call (events s) @ map (\<lambda>u. Delete (following_url u)) (take (Suc m) (u # tu))"
      using False m by (simp add: loop_Cons)
    then show ?thesis by blast
  qed
qed

lemma follow_loop_no_delete:
  "filter is_delete (events (follow_loop cap e tf s)) = filter is_delete (events s)"
  by (induction tf arbitrary: s) (simp_all add: loop_Cons)

lemma follow_loop_notification:
  "filter is_notification (events (follow_loop cap e tf s)) = filter is_notification (events s)"
  by (induction tf arbitrary: s) (simp_all add: loop_Cons)

lemma unfollow_loop_notification:
  "filter is_notification (events (unfollow_loop cap e tu s)) = filter is_notification (events s)"
  by (induction tu arbitrary: s) (simp_all add: loop_Cons)

lemma follow_loop_followed_subset:
  "x \<in> set (followed (follow_loop cap e tf s)) \<Longrightarrow> x \<in> set (followed s) \<or> x \<in> set tf"
proof (induction tf arbitrary: s)
  case Nil
  then show ?case by simp
next
  case (Cons u tf)
  show ?case
  proof (cases "cap \<le> action_count s")
    case True
    then show ?thesis using Cons.prems by (simp add: loop_Cons)
  next
    case False
    then show ?thesis
      using Cons.prems
      by (auto simp add: loop_Cons split: if_splits dest!: Cons.IH)
  qed
qed

lemma unfollow_loop_unfollowed_subset:
  "x \<in> set (unfollowed (unfollow_loop cap e tu s)) \<Longrightarrow> x \<in> set (unfollowed s) \<or> x \<in> set tu"
proof (induction tu arbitrary: s)
  case Nil
  then show ?case by simp
next
  case (Cons u tu)
  show ?case
  proof (cases "cap \<le> action_count s")
    case True
    then show ?thesis using Cons.prems by (simp add: loop_Cons)
  next
    case False
    then show ?thesis
      using Cons.prems
      by (auto simp add: loop_Cons split: if_splits dest!: Cons.IH)
  qed
qed

lemma follow_loop_succeeded:
  "int (length (filter (succeeded e) (events (follow_loop cap e tf s)))) - int (action_count (follow_loop cap e tf s)) =
     int (length (filter (succeeded e) (events s))) - int (action_count s)"
  by (induction tf arbitrary: s) (simp_all add: loop_Cons)

lemma unfollow_loop_succeeded:
  "int (length (filter (succeeded e) (events (unfollow_loop cap e tu s)))) - int (action_count (unfollow_loop cap e tu s)) =
     int (length (filter (succeeded e) (events s))) - int (action_count s)"
  by (induction tu arbitrary: s) (simp_all add: loop_Cons)

lemma follow_loop_indep:
  assumes "requests_put e' = requests_put e"
    and "followed s' = followed s" and "unfollowed s' = unfollowed s"
    and "action_count s' = action_count s"
    and "filter is_call (events s') = filter is_call (events s)"
  shows "followed (follow_loop cap e' tf s') = followed (follow_loop cap e tf s)
     \<and> unfollowed (follow_loop cap e' tf s') = unfollowed (follow_loop cap e tf s)
     \<and> action_count (follow_loop cap e' tf s') = action_count (follow_loop cap e tf s)
     \<and> filter is_call (events (follow_loop cap e' tf s')) = filter is_call (events (follow_loop cap e tf s))"
  using assms
proof (induction tf arbitrary: s s')
  case Nil
  then show ?case by simp
next
  case (Cons u tf)
  show ?case
  proof (cases "cap \<le> action_count s")
    case True
    then show ?thesis using Cons.prems by (simp add: loop_Cons)
  next
    case False
    show ?thesis
      using False Cons.prems
      by (simp add: loop_Cons) (intro conjI impI; rule Cons.IH [THEN conjunct1] Cons.IH [THEN conjunct2, THEN conjunct1]
            Cons.IH [THEN conjunct2, THEN conjunct2, THEN conjunct1] Cons.IH [THEN conjunct2, THEN conjunct2, THEN conjunct2]; simp)
  qed
qed

lemma perform_actions_followed:
  "followed (perform_actions cap e tf tu) =
     followed (follow_loop cap e tf \<lparr>followed = [], unfollowed = [], action_count = 0, rng = random_state e, events = []\<rparr>)"
  by (simp add: perform_actions_def Let_def unfollow_loop_followed)

lemma perform_actions_count:
  "action_count (perform_actions cap e tf tu) =
     length (followed (perform_actions cap e tf tu)) + length (unfollowed (perform_actions cap e tf tu))"
proof -
  let ?s0 = "\<lparr>followed = [], unfollowed = [], action_count = 0, rng = random_state e, events = []\<rparr> :: ('a, 'b) actions"
  let ?s1 = "follow_loop cap e tf ?s0"
  let ?s2 = "unfollow_loop cap e tu ?s1"
  have a: "int (action_count ?s1) = int (length (followed ?s1))"
    using follow_loop_count [of cap e tf ?s0] by simp
  have b: "int (action_count ?s2) - int (length (unfollowed ?s2)) = int (action_count ?s1)"
    using unfollow_loop_count [of cap e tu ?s1] by (simp add: follow_loop_unfollowed)
  have c: "followed ?s2 = followed ?s1" by (rule unfollow_loop_followed)
  have "int (action_count ?s2) = int (length (followed ?s2)) + int (length (unfollowed ?s2))"
    using a b c by simp
  then show ?thesis by (simp add: perform_actions_def Let_def)
qed

lemma perform_actions_cap: "action_count (perform_actions cap e tf tu) \<le> cap"
  by (simp add: perform_actions_def Let_def unfollow_loop_cap follow_loop_cap)

lemma perform_actions_calls:
  "\<exists>k m. filter is_call (events (perform_actions cap e tf tu)) =
     map (\<lambda>u. Put (following_url u)) (take k tf) @ map (\<lambda>u. Delete (following_url u)) (take m tu)"
proof -
  let ?s0 = "\<lparr>followed = [], unfollowed = [], action_count = 0, rng = random_state e, events = []\<rparr> :: ('a, 'b) actions"
  let ?s1 = "follow_loop cap e tf ?s0"
  obtain k where k: "filter is_call (events ?s1) = map (\<lambda>u. Put (following_url u)) (take k tf)"
    using follow_loop_calls [of cap e tf ?s0] by auto
  obtain m where m: "filter is_call (events (unfollow_loop cap e tu ?s1)) =
      filter is_call (events ?s1) @ map (\<lambda>u. Delete (following_url u)) (take m tu)"
    using unfollow_loop_calls [of cap e tu ?s1] by auto
  show ?thesis using k m by (auto simp add: perform_actions_def Let_def)
qed

lemma perform_actions_exhausted:
  assumes "cap \<le> length (followed (perform_actions cap e tf tu))"
  shows "unfollowed (perform_actions cap e tf tu) = [] \<and> filter is_delete (events (perform_actions cap e tf tu)) = []"
proof -
  let ?s0 = "\<lparr>followed = [], unfollowed = [], action_count = 0, rng = random_state e, events = []\<rparr> :: ('a, 'b) actions"
  let ?s1 = "follow_loop cap e tf ?s0"
  have a: "int (action_count ?s1) = int (length (followed ?s1))"
    using follow_loop_count [of cap e tf ?s0] by simp
  have "cap \<le> length (followed ?s1)" using assms by (simp add: perform_actions_followed)
  then have "cap \<le> action_count ?s1" using a by simp
  then have "unfollow_loop cap e tu ?s1 = ?s1" by (rule unfollow_loop_exhausted)
  then have eq: "perform_actions cap e tf tu = ?s1" by (simp add: perform_actions_def Let_def)
  show ?thesis unfolding eq by (simp add: follow_loop_unfollowed follow_loop_no_delete)
qed

lemma finish_run_followed: "followed (finish_run e fl fg s) = followed s"
  by (simp add: finish_run_def Let_def)

lemma finish_run_unfollowed: "unfollowed (finish_run e fl fg s) = unfollowed s"
  by (simp add: finish_run_def Let_def)

lemma finish_run_action_count: "action_count (finish_run e fl fg s) = action_count s"
  by (simp add: finish_run_def Let_def)

lemma sync_followers_Completed:
  assumes "sync_followers e = Some (Completed s)"
  shows "\<exists>fl fg.
     get_followers e = Some fl \<and> get_following e = Some fg \<and>
     s = finish_run e fl fg
           (perform_actions MAX_ACTIONS_PER_RUN e
              (fst (analysis fl fg (load_list_file (whitelist_txt e)) (load_list_file (blacklist_txt e))))
              (snd (analysis fl fg (load_list_file (whitelist_txt e)) (load_list_file (blacklist_txt e)))))"
  using assms
  by (auto simp add: sync_followers_def Let_def split: if_splits option.splits prod.splits)

lemma follow_loop_below_cap:
  "action_count (follow_loop cap e tf s) < cap \<Longrightarrow>
     filter is_call (events (follow_loop cap e tf s)) =
       filter is_call (events s) @ map (\<lambda>u. Put (following_url u)) tf"
proof (induction tf arbitrary: s)
  case Nil
  then show ?case by simp
next
  case (Cons u tf)
  show ?case
  proof (cases "cap \<le> action_count s")
    case True
    then show ?thesis using Cons.prems by (simp add: loop_Cons)
  next
    case False
    then show ?thesis
      using Cons.prems Cons.IH
      by (simp add: loop_Cons split: if_splits)
  qed
qed

lemma unfollow_loop_below_cap:
  "action_count (unfollow_loop cap e tu s) < cap \<Longrightarrow>
     filter is_call (events (unfollow_loop cap e tu s)) =
       filter is_call (events s) @ map (\<lambda>u. Delete (following_url u)) tu"
proof (induction tu arbitrary: s)
  case Nil
  then show ?case by simp
next
  case (Cons u tu)
  show ?case
  proof (cases "cap \<le> action_count s")
    case True
    then show ?thesis using Cons.prems by (simp add: loop_Cons)
  next
    case False
    then show ?thesis
      using Cons.prems Cons.IH
      by (simp add: loop_Cons split: if_splits)
  qed
qed

lemma unfollow_loop_mono: "action_count s \<le> action_count (unfollow_loop cap e tu s)"
proof (induction tu arbitrary: s)
  case Nil
  show ?case by simp
next
  case (Cons u tu)
  show ?case
  proof (cases "cap \<le> action_count s")
    case True
    then show ?thesis by (simp add: loop_Cons)
  next
    case False
    have a: "action_count s \<le> action_count (unfollow_loop cap e tu
        (s\<lparr>rng := snd (random_uniform e ACTION_DELAY_MIN ACTION_DELAY_MAX (rng s)),
           events := events s @ [Sleep (fst (random_uniform e ACTION_DELAY_MIN ACTION_DELAY_MAX (rng s))),
                                 Delete (following_url u)],
           unfollowed := unfollowed s @ [u], action_count := Suc (action_count s)\<rparr>))"
      using Cons.IH [of "s\<lparr>rng := snd (random_uniform e ACTION_DELAY_MIN ACTION_DELAY_MAX (rng s)),
           events := events s @ [Sleep (fst (random_uniform e ACTION_DELAY_MIN ACTION_DELAY_MAX (rng s))),
                                 Delete (following_url u)],
           unfollowed := unfollowed s @ [u], action_count := Suc (action_count s)\<rparr>"]
      by simp
    have b: "action_count s \<le> action_count (unfollow_loop cap e tu
        (s\<lparr>rng := snd (random_uniform e ACTION_DELAY_MIN ACTION_DELAY_MAX (rng s)),
           events := events s @ [Sleep (fst (random_uniform e ACTION_DELAY_MIN ACTION_DELAY_MAX (rng s))),
                                 Delete (following_url u)]\<rparr>))"
      using Cons.IH [of "s\<lparr>rng := snd (random_uniform e ACTION_DELAY_MIN ACTION_DELAY_MAX (rng s)),
           events := events s @ [Sleep (fst (random_uniform e ACTION_DELAY_MIN ACTION_DELAY_MAX (rng s))),
                                 Delete (following_url u)]\<rparr>"]
      by simp
    show ?thesis using False a b by (simp add: loop_Cons)
  qed
qed

lemma perform_actions_follow_phase:
  assumes "length (followed (perform_actions cap e tf tu)) < cap"
  shows "\<exists>m. filter is_call (events (perform_actions cap e tf tu)) =
     map (\<lambda>u. Put (following_url u)) tf @ map (\<lambda>u. Delete (following_url u)) (take m tu)"
proof -
  let ?s0 = "\<lparr>followed = [], unfollowed = [], action_count = 0, rng = random_state e, events = []\<rparr> :: ('a, 'b) actions"
  let ?s1 = "follow_loop cap e tf ?s0"
  have a: "int (action_count ?s1) = int (length (followed ?s1))"
    using follow_loop_count [of cap e tf ?s0] by simp
  have "length (followed ?s1) < cap" using assms by (simp add: perform_actions_followed)
  then have "action_count ?s1 < cap" using a by simp
  then have k: "filter is_call (events ?s1) = map (\<lambda>u. Put (following_url u)) tf"
    using follow_loop_below_cap [of cap e tf ?s0] by simp
  obtain m where m: "filter is_call (events (unfollow_loop cap e tu ?s1)) =
      filter is_call (events ?s1) @ map (\<lambda>u. Delete (following_url u)) (take m tu)"
    using unfollow_loop_calls [of cap e tu ?s1] by auto
  show ?thesis using k m by (auto simp add: perform_actions_def Let_def)
qed

lemma perform_actions_below_cap:
  assumes "action_count (perform_actions cap e tf tu) < cap"
  shows "filter is_call (events (perform_actions cap e tf tu)) =
     map (\<lambda>u. Put (following_url u)) tf @ map (\<lambda>u. Delete (following_url u)) tu"
proof -
  let ?s0 = "\<lparr>followed = [], unfollowed = [], action_count = 0, rng = random_state e, events = []\<rparr> :: ('a, 'b) actions"
  let ?s1 = "follow_loop cap e tf ?s0"
  let ?s2 = "unfollow_loop cap e tu ?s1"
  have s2: "action_count ?s2 < cap" using assms by (simp add: perform_actions_def Let_def)
  have "action_count ?s1 \<le> action_count ?s2" by (rule unfollow_loop_mono)
  then have "action_count ?s1 < cap" using s2 by simp
  then have k: "filter is_call (events ?s1) = map (\<lambda>u. Put (following_url u)) tf"
    using follow_loop_below_cap [of cap e tf ?s0] by simp
  have "filter is_call (events ?s2) = filter is_call (events ?s1) @ map (\<lambda>u. Delete (following_url u)) tu"
    using s2 by (rule unfollow_loop_below_cap)
  then show ?thesis using k by (simp add: perform_actions_def Let_def)
qed

lemma perform_actions_delete_after_all_follows:
  assumes "filter is_delete (events (perform_actions cap e tf tu)) \<noteq> []"
  shows "\<exists>m. filter is_call (events (perform_actions cap e tf tu)) =
     map (\<lambda>u. Put (following_url u)) tf @ map (\<lambda>u. Delete (following_url u)) (take m tu)"
proof -
  have "\<not> cap \<le> length (followed (perform_actions cap e tf tu))"
    using assms perform_actions_exhausted [of cap e tf tu] by blast
  then show ?thesis by (intro perform_actions_follow_phase) simp
qed

lemma three_followers_one_failure:
  assumes "status_code (requests_put e (following_url a)) \<noteq> 204
         \<or> status_code (requests_put e (following_url b)) \<noteq> 204"
  shows "filter is_call (events (perform_actions 2 e [a, b, c] [])) =
     [Put (following_url a), Put (following_url b), Put (following_url c)]"
  using assms by (auto simp add: perform_actions_def Let_def loop_Cons)

lemma three_followers_no_failure:
  assumes "status_code (requests_put e (following_url a)) = 204
         \<and> status_code (requests_put e (following_url b)) = 204"
  shows "filter is_call (events (perform_actions 2 e [a, b, c] [])) =
     [Put (following_url a), Put (following_url b)]"
  using assms by (auto simp add: perform_actions_def Let_def loop_Cons)

lemma analysis_three_followers:
  "analysis [a, b, c] [] whitelist {} = ([a, b, c], [])"
  by (simp add: analysis_filter)

text \<open>
  C1. The realized actions of a run never exceed the cap: \<open>len(followed) + len(unfollowed)\<close>
  is at most \<open>cap\<close> (for \<open>sync_followers\<close>, at most \<open>MAX_ACTIONS_PER_RUN\<close>). The remote
  calls of the action phase are the follow calls for a prefix of \<open>to_follow\<close>, in order,
  followed by the unfollow calls for a prefix of \<open>to_unfollow\<close>. The follow candidates are
  processed before any unfollow is attempted: unless \<open>cap\<close> follows were realized, the
  follow calls are those for the whole of \<open>to_follow\<close>, and whenever the trace holds an
  unfollow call, the follow call of every candidate of \<open>to_follow\<close> stands before it.
  When the follow phase has used the whole budget (\<open>cap\<close> follows were realized), no
  unfollow is realized and no unfollow call is made. When fewer than \<open>cap\<close> actions were
  realized in all, every candidate of both lists was attempted.
\<close>

theorem shared_action_budget:
  "length (followed (perform_actions cap e to_follow to_unfollow))
     + length (unfollowed (perform_actions cap e to_follow to_unfollow)) \<le> cap
   \<and> (\<exists>k m. filter is_call (events (perform_actions cap e to_follow to_unfollow)) =
          map (\<lambda>u. Put (following_url u)) (take k to_follow) @
          map (\<lambda>u. Delete (following_url u)) (take m to_unfollow))
   \<and> (cap \<le> length (followed (perform_actions cap e to_follow to_unfollow)) \<longrightarrow>
        unfollowed (perform_actions cap e to_follow to_unfollow) = [] \<and>
        filter is_delete (events (perform_actions cap e to_follow to_unfollow)) = [])
   \<and> (\<forall>s. sync_followers e = Some (Completed s) \<longrightarrow>
        length (followed s) + length (unfollowed s) \<le> MAX_ACTIONS_PER_RUN)
   \<and> (length (followed (perform_actions cap e to_follow to_unfollow)) < cap \<longrightarrow>
        (\<exists>m. filter is_call (events (perform_actions cap e to_follow to_unfollow)) =
          map (\<lambda>u. Put (following_url u)) to_follow @
          map (\<lambda>u. Delete (following_url u)) (take m to_unfollow)))
   \<and> (filter is_delete (events (perform_actions cap e to_follow to_unfollow)) \<noteq> [] \<longrightarrow>
        (\<exists>m. filter is_call (events (perform_actions cap e to_follow to_unfollow)) =
          map (\<lambda>u. Put (following_url u)) to_follow @
          map (\<lambda>u. Delete (following_url u)) (take m to_unfollow)))
   \<and> (length (followed (perform_actions cap e to_follow to_unfollow))
        + length (unfollowed (perform_actions cap e to_follow to_unfollow)) < cap \<longrightarrow>
        filter is_call (events (perform_actions cap e to_follow to_unfollow)) =
          map (\<lambda>u. Put (following_url u)) to_follow @
          map (\<lambda>u. Delete (following_url u)) to_unfollow)"
proof (intro conjI impI allI)
  show "length (followed (perform_actions cap e to_follow to_unfollow))
     + length (unfollowed (perform_actions cap e to_follow to_unfollow)) \<le> cap"
    using perform_actions_cap [of cap e to_follow to_unfollow]
    by (simp add: perform_actions_count)
  show "\<exists>k m. filter is_call (events (perform_actions cap e to_follow to_unfollow)) =
          map (\<lambda>u. Put (following_url u)) (take k to_follow) @
          map (\<lambda>u. Delete (following_url u)) (take m to_unfollow)"
    by (rule perform_actions_calls)
next
  assume "cap \<le> length (followed (perform_actions cap e to_follow to_unfollow))"
  then show "unfollowed (perform_actions cap e to_follow to_unfollow) = []"
    and "filter is_delete (events (perform_actions cap e to_follow to_unfollow)) = []"
    using perform_actions_exhausted by blast+
next
  fix s
  assume "sync_followers e = Some (Completed s)"
  then obtain fl fg tf tu where s: "s = finish_run e fl fg (perform_actions MAX_ACTIONS_PER_RUN e tf tu)"
    using sync_followers_Completed by blast
  show "length (followed s) + length (unfollowed s) \<le> MAX_ACTIONS_PER_RUN"
    unfolding s finish_run_followed finish_run_unfollowed
    using perform_actions_cap [of MAX_ACTIONS_PER_RUN e tf tu]
    by (simp add: perform_actions_count)
next
  assume "length (followed (perform_actions cap e to_follow to_unfollow)) < cap"
  then show "\<exists>m. filter is_call (events (perform_actions cap e to_follow to_unfollow)) =
          map (\<lambda>u. Put (following_url u)) to_follow @
          map (\<lambda>u. Delete (following_url u)) (take m to_unfollow)"
    by (rule perform_actions_follow_phase)
next
  assume "filter is_delete (events (perform_actions cap e to_follow to_unfollow)) \<noteq> []"
  then show "\<exists>m. filter is_call (events (perform_actions cap e to_follow to_unfollow)) =
          map (\<lambda>u. Put (following_url u)) to_follow @
          map (\<lambda>u. Delete (following_url u)) (take m to_unfollow)"
    by (rule perform_actions_delete_after_all_follows)
next
  assume "length (followed (perform_actions cap e to_follow to_unfollow))
        + length (unfollowed (perform_actions cap e to_follow to_unfollow)) < cap"
  then have "action_count (perform_actions cap e to_follow to_unfollow) < cap"
    by (simp add: perform_actions_count)
  then show "filter is_call (events (perform_actions cap e to_follow to_unfollow)) =
          map (\<lambda>u. Put (following_url u)) to_follow @
          map (\<lambda>u. Delete (following_url u)) to_unfollow"
    by (rule perform_actions_below_cap)
qed

theorem shared_action_budget_witness:
  "2 \<le> length (followed (perform_actions 2 (example_env (answer 200) (answer 204) (answer 204))
          [''a'', ''b'', ''c''] [''x'']))
   \<and> unfollowed (perform_actions 2 (example_env (answer 200) (answer 204) (answer 204))
          [''a'', ''b'', ''c''] [''x'']) = []
   \<and> filter is_delete (events (perform_actions 2 (example_env (answer 200) (answer 204) (answer 204))
          [''a'', ''b'', ''c''] [''x''])) = []
   \<and> (\<exists>s. sync_followers (example_env (serves [''a'', ''b'', ''c''] [''b'', ''x'']) (answer 204) (answer 204))
              = Some (Completed s)
          \<and> followed s = [''a'', ''c''] \<and> unfollowed s = [''x'']
          \<and> length (followed s) + length (unfollowed s) \<le> MAX_ACTIONS_PER_RUN)
   \<and> filter is_call (events (perform_actions 10 (example_env (answer 200) (fails_for ''a'') (answer 204))
          [''a'', ''b'', ''c''] [''x'']))
      = [Put (following_url ''a''), Put (following_url ''b''), Put (following_url ''c''),
         Delete (following_url ''x'')]"
proof -
  let ?P = "perform_actions 2 (example_env (answer 200) (answer 204) (answer 204)) [''a'', ''b'', ''c''] [''x'']"
  let ?R = "sync_followers (example_env (serves [''a'', ''b'', ''c''] [''b'', ''x'']) (answer 204) (answer 204))"
  let ?Q = "perform_actions 10 (example_env (answer 200) (fails_for ''a'') (answer 204)) [''a'', ''b'', ''c''] [''x'']"
  have f: "followed ?P = [''a'', ''b'']" by code_simp
  then have pre: "2 \<le> length (followed ?P)" by simp
  note inst = shared_action_budget [of 2 "example_env (answer 200) (answer 204) (answer 204)" "[''a'', ''b'', ''c'']" "[''x'']"]
  from inst pre have a: "unfollowed ?P = [] \<and> filter is_delete (events ?P) = []" by blast
  have r: "(case ?R of Some (Completed s) \<Rightarrow> followed s = [''a'', ''c''] \<and> unfollowed s = [''x''] | _ \<Rightarrow> False)"
    by code_simp
  then obtain s where s: "?R = Some (Completed s)" "followed s = [''a'', ''c'']" "unfollowed s = [''x'']"
    by (auto split: option.splits run.splits)
  from shared_action_budget [of 2 "example_env (serves [''a'', ''b'', ''c''] [''b'', ''x'']) (answer 204) (answer 204)" "[]" "[]"] s(1)
  have b: "length (followed s) + length (unfollowed s) \<le> MAX_ACTIONS_PER_RUN" by blast
  have q: "followed ?Q = [''b'', ''c'']" "unfollowed ?Q = [''x'']" by code_simp+
  then have qpre: "length (followed ?Q) + length (unfollowed ?Q) < 10" by simp
  from shared_action_budget [of 10 "example_env (answer 200) (fails_for ''a'') (answer 204)" "[''a'', ''b'', ''c'']" "[''x'']"] qpre
  have c: "filter is_call (events ?Q) =
      map (\<lambda>u. Put (following_url u)) [''a'', ''b'', ''c''] @ map (\<lambda>u. Delete (following_url u)) [''x'']"
    by blast
  have c': "filter is_call (events ?Q) =
      [Put (following_url ''a''), Put (following_url ''b''), Put (following_url ''c''), Delete (following_url ''x'')]"
    using c by simp
  show ?thesis using pre a s b c' by blast
qed

text \<open>
  C2, as stated, fails: the counter is incremented only when the remote call succeeds.
  With followers a, b, c, nobody followed and a cap of 2, when the call for a fails all
  three follow calls are made, and the counter ends at 2.
\<close>

theorem failed_attempt_consumes_no_budget:
  "filter is_call (events (perform_actions 2 (example_env (answer 200) (fails_for ''a'') (answer 204))
       (fst (analysis [''a'', ''b'', ''c''] [] {} {})) (snd (analysis [''a'', ''b'', ''c''] [] {} {}))))
     = [Put (following_url ''a''), Put (following_url ''b''), Put (following_url ''c'')]
   \<and> followed (perform_actions 2 (example_env (answer 200) (fails_for ''a'') (answer 204))
       (fst (analysis [''a'', ''b'', ''c''] [] {} {})) (snd (analysis [''a'', ''b'', ''c''] [] {} {})))
     = [''b'', ''c'']
   \<and> action_count (perform_actions 2 (example_env (answer 200) (fails_for ''a'') (answer 204))
       (fst (analysis [''a'', ''b'', ''c''] [] {} {})) (snd (analysis [''a'', ''b'', ''c''] [] {} {})))
     = 2"
  by code_simp

lemma unfollow_loop_indep:
  assumes "requests_delete e' = requests_delete e"
    and "followed s' = followed s" and "unfollowed s' = unfollowed s"
    and "action_count s' = action_count s"
    and "filter is_call (events s') = filter is_call (events s)"
  shows "followed (unfollow_loop cap e' tu s') = followed (unfollow_loop cap e tu s)
     \<and> unfollowed (unfollow_loop cap e' tu s') = unfollowed (unfollow_loop cap e tu s)
     \<and> action_count (unfollow_loop cap e' tu s') = action_count (unfollow_loop cap e tu s)
     \<and> filter is_call (events (unfollow_loop cap e' tu s')) = filter is_call (events (unfollow_loop cap e tu s))"
  using assms
proof (induction tu arbitrary: s s')
  case Nil
  then show ?case by simp
next
  case (Cons u tu)
  show ?case
  proof (cases "cap \<le> action_count s")
    case True
    then show ?thesis using Cons.prems by (simp add: loop_Cons)
  next
    case False
    show ?thesis
      using False Cons.prems
      by (simp add: loop_Cons) (intro conjI impI; rule Cons.IH [THEN conjunct1] Cons.IH [THEN conjunct2, THEN conjunct1]
            Cons.IH [THEN conjunct2, THEN conjunct2, THEN conjunct1] Cons.IH [THEN conjunct2, THEN conjunct2, THEN conjunct2]; simp)
  qed
qed

lemma perform_actions_indep:
  fixes e :: "('d, 'g) env" and e' :: "('d, 'h) env"
  assumes "requests_put e' = requests_put e" and "requests_delete e' = requests_delete e"
  shows "followed (perform_actions cap e' tf tu) = followed (perform_actions cap e tf tu)
     \<and> unfollowed (perform_actions cap e' tf tu) = unfollowed (perform_actions cap e tf tu)
     \<and> action_count (perform_actions cap e' tf tu) = action_count (perform_actions cap e tf tu)
     \<and> filter is_call (events (perform_actions cap e' tf tu)) = filter is_call (events (perform_actions cap e tf tu))"
proof -
  let ?s0 = "\<lparr>followed = [], unfollowed = [], action_count = 0, rng = random_state e, events = []\<rparr> :: ('d, 'g) actions"
  let ?s0' = "\<lparr>followed = [], unfollowed = [], action_count = 0, rng = random_state e', events = []\<rparr> :: ('d, 'h) actions"
  have f: "followed (follow_loop cap e' tf ?s0') = followed (follow_loop cap e tf ?s0)
     \<and> unfollowed (follow_loop cap e' tf ?s0') = unfollowed (follow_loop cap e tf ?s0)
     \<and> action_count (follow_loop cap e' tf ?s0') = action_count (follow_loop cap e tf ?s0)
     \<and> filter is_call (events (follow_loop cap e' tf ?s0')) = filter is_call (events (follow_loop cap e tf ?s0))"
    by (rule follow_loop_indep [OF assms(1)]) simp_all
  have "followed (unfollow_loop cap e' tu (follow_loop cap e' tf ?s0')) = followed (unfollow_loop cap e tu (follow_loop cap e tf ?s0))
     \<and> unfollowed (unfollow_loop cap e' tu (follow_loop cap e' tf ?s0')) = unfollowed (unfollow_loop cap e tu (follow_loop cap e tf ?s0))
     \<and> action_count (unfollow_loop cap e' tu (follow_loop cap e' tf ?s0')) = action_count (unfollow_loop cap e tu (follow_loop cap e tf ?s0))
     \<and> filter is_call (events (unfollow_loop cap e' tu (follow_loop cap e' tf ?s0'))) = filter is_call (events (unfollow_loop cap e tu (follow_loop cap e tf ?s0)))"
    using f by (intro unfollow_loop_indep [OF assms(2)]) simp_all
  then show ?thesis by (simp add: perform_actions_def Let_def)
qed

lemma perform_actions_succeeded:
  "length (filter (succeeded e) (events (perform_actions cap e tf tu))) = action_count (perform_actions cap e tf tu)"
proof -
  let ?s0 = "\<lparr>followed = [], unfollowed = [], action_count = 0, rng = random_state e, events = []\<rparr> :: ('a, 'b) actions"
  let ?s1 = "follow_loop cap e tf ?s0"
  let ?s2 = "unfollow_loop cap e tu ?s1"
  have a: "int (length (filter (succeeded e) (events ?s1))) - int (action_count ?s1) = 0"
    using follow_loop_succeeded [of e cap tf ?s0] by simp
  have b: "int (length (filter (succeeded e) (events ?s2))) - int (action_count ?s2) =
           int (length (filter (succeeded e) (events ?s1))) - int (action_count ?s1)"
    by (rule unfollow_loop_succeeded)
  have "int (length (filter (succeeded e) (events ?s2))) = int (action_count ?s2)"
    using a b by simp
  then show ?thesis by (simp add: perform_actions_def Let_def)
qed

text \<open>
  C2, amended. Each successful follow or unfollow call consumes one unit of the shared
  budget and a failed one consumes none: the counter equals
  \<open>len(followed) + len(unfollowed)\<close>, which is the number of remote calls of the trace
  that succeeded, and never exceeds the cap; as long as fewer than \<open>cap\<close> calls have
  succeeded the loops go on, so that a run with fewer than \<open>cap\<close> realized actions has
  attempted every candidate. In particular, with followers a, b, c, nobody followed and a
  cap of 2, at most 2 follow calls succeed and no unfollow call is made; when the call for
  a or the call for b fails, all three follow calls are attempted, and when both succeed,
  exactly those two.
\<close>

theorem successful_actions_consume_budget:
  "action_count (perform_actions cap e to_follow to_unfollow) =
     length (followed (perform_actions cap e to_follow to_unfollow))
       + length (unfollowed (perform_actions cap e to_follow to_unfollow))
   \<and> length (filter (succeeded e) (events (perform_actions cap e to_follow to_unfollow))) =
       action_count (perform_actions cap e to_follow to_unfollow)
   \<and> action_count (perform_actions cap e to_follow to_unfollow) \<le> cap
   \<and> length (filter (succeeded e) (events (perform_actions 2 e
         (fst (analysis [a, b, c] [] whitelist blacklist))
         (snd (analysis [a, b, c] [] whitelist blacklist))))) \<le> 2
   \<and> filter is_delete (events (perform_actions 2 e
         (fst (analysis [a, b, c] [] whitelist blacklist))
         (snd (analysis [a, b, c] [] whitelist blacklist)))) = []
   \<and> (action_count (perform_actions cap e to_follow to_unfollow) < cap \<longrightarrow>
        filter is_call (events (perform_actions cap e to_follow to_unfollow)) =
          map (\<lambda>u. Put (following_url u)) to_follow @
          map (\<lambda>u. Delete (following_url u)) to_unfollow)
   \<and> (status_code (requests_put e (following_url a)) \<noteq> 204
        \<or> status_code (requests_put e (following_url b)) \<noteq> 204 \<longrightarrow>
        filter is_call (events (perform_actions 2 e
           (fst (analysis [a, b, c] [] whitelist {}))
           (snd (analysis [a, b, c] [] whitelist {})))) =
          [Put (following_url a), Put (following_url b), Put (following_url c)])
   \<and> (status_code (requests_put e (following_url a)) = 204
        \<and> status_code (requests_put e (following_url b)) = 204 \<longrightarrow>
        filter is_call (events (perform_actions 2 e
           (fst (analysis [a, b, c] [] whitelist {}))
           (snd (analysis [a, b, c] [] whitelist {})))) =
          [Put (following_url a), Put (following_url b)])"
proof (intro conjI impI)
  show "action_count (perform_actions cap e to_follow to_unfollow) =
     length (followed (perform_actions cap e to_follow to_unfollow))
       + length (unfollowed (perform_actions cap e to_follow to_unfollow))"
    by (rule perform_actions_count)
  show "length (filter (succeeded e) (events (perform_actions cap e to_follow to_unfollow))) =
       action_count (perform_actions cap e to_follow to_unfollow)"
    by (rule perform_actions_succeeded)
  show "action_count (perform_actions cap e to_follow to_unfollow) \<le> cap"
    by (rule perform_actions_cap)
  show "length (filter (succeeded e) (events (perform_actions 2 e
         (fst (analysis [a, b, c] [] whitelist blacklist))
         (snd (analysis [a, b, c] [] whitelist blacklist))))) \<le> 2"
    by (simp only: perform_actions_succeeded perform_actions_cap)
  have none: "snd (analysis [a, b, c] [] whitelist blacklist) = []"
    by (simp add: analysis_filter)
  show "filter is_delete (events (perform_actions 2 e
         (fst (analysis [a, b, c] [] whitelist blacklist))
         (snd (analysis [a, b, c] [] whitelist blacklist)))) = []"
    unfolding none by (simp add: perform_actions_def Let_def follow_loop_no_delete)
next
  assume "action_count (perform_actions cap e to_follow to_unfollow) < cap"
  then show "filter is_call (events (perform_actions cap e to_follow to_unfollow)) =
          map (\<lambda>u. Put (following_url u)) to_follow @
          map (\<lambda>u. Delete (following_url u)) to_unfollow"
    by (rule perform_actions_below_cap)
next
  assume "status_code (requests_put e (following_url a)) \<noteq> 204
        \<or> status_code (requests_put e (following_url b)) \<noteq> 204"
  then show "filter is_call (events (perform_actions 2 e
           (fst (analysis [a, b, c] [] whitelist {}))
           (snd (analysis [a, b, c] [] whitelist {})))) =
          [Put (following_url a), Put (following_url b), Put (following_url c)]"
    unfolding analysis_three_followers fst_conv snd_conv
    by (rule three_followers_one_failure)
next
  assume "status_code (requests_put e (following_url a)) = 204
        \<and> status_code (requests_put e (following_url b)) = 204"
  then show "filter is_call (events (perform_actions 2 e
           (fst (analysis [a, b, c] [] whitelist {}))
           (snd (analysis [a, b, c] [] whitelist {})))) =
          [Put (following_url a), Put (following_url b)]"
    unfolding analysis_three_followers fst_conv snd_conv
    by (rule three_followers_no_failure)
qed

theorem successful_actions_consume_budget_witness:
  "action_count (perform_actions 2 (example_env (answer 200) (fails_for ''a'') (answer 204))
      [''a'', ''b'', ''c''] []) = 2
   \<and> length (filter (succeeded (example_env (answer 200) (fails_for ''a'') (answer 204)))
        (events (perform_actions 2 (example_env (answer 200) (fails_for ''a'') (answer 204))
           [''a'', ''b'', ''c''] []))) = 2
   \<and> length (filter is_call
        (events (perform_actions 2 (example_env (answer 200) (fails_for ''a'') (answer 204))
           [''a'', ''b'', ''c''] []))) = 3
   \<and> status_code (requests_put (example_env (answer 200) (fails_for ''a'') (answer 204))
        (following_url ''a'')) \<noteq> 204
   \<and> filter is_call (events (perform_actions 2 (example_env (answer 200) (fails_for ''a'') (answer 204))
        (fst (analysis [''a'', ''b'', ''c''] [] {} {})) (snd (analysis [''a'', ''b'', ''c''] [] {} {}))))
      = [Put (following_url ''a''), Put (following_url ''b''), Put (following_url ''c'')]"
proof -
  let ?e = "example_env (answer 200) (fails_for ''a'') (answer 204)"
  let ?P = "perform_actions 2 ?e [''a'', ''b'', ''c''] []"
  have f: "followed ?P = [''b'', ''c'']" and u: "unfollowed ?P = []" by code_simp+
  have c: "length (filter is_call (events ?P)) = 3" by code_simp
  have fails: "status_code (requests_put ?e (following_url ''a'')) \<noteq> 204"
    by (simp add: example_env_def fails_for_def answer_def)
  note inst = successful_actions_consume_budget [where cap = 2 and e = ?e
      and to_follow = "[''a'', ''b'', ''c'']" and to_unfollow = "[]"
      and a = "''a''" and b = "''b''" and c = "''c''" and whitelist = "{}" and blacklist = "{}"]
  from inst have "action_count ?P = length (followed ?P) + length (unfollowed ?P)"
    and "length (filter (succeeded ?e) (events ?P)) = action_count ?P" by blast+
  then have first: "action_count ?P = 2" "length (filter (succeeded ?e) (events ?P)) = 2"
    using f u by simp_all
  from inst fails have three: "filter is_call (events (perform_actions 2 ?e
        (fst (analysis [''a'', ''b'', ''c''] [] {} {})) (snd (analysis [''a'', ''b'', ''c''] [] {} {}))))
      = [Put (following_url ''a''), Put (following_url ''b''), Put (following_url ''c'')]"
    by blast
  show ?thesis using first c fails three by blast
qed

lemma get_all_pages_random:
  "get_followers (e\<lparr>random_uniform := u', random_state := g'\<rparr>) = get_followers e"
  "get_following (e\<lparr>random_uniform := u', random_state := g'\<rparr>) = get_following e"
  by (simp_all add: get_followers_def get_following_def GITHUB_USERNAME_def)

text \<open>
  C9. With the inputs and the answers of the remote endpoints fixed, replacing the random
  generator (its draw function and its state) changes neither \<open>followed\<close> nor
  \<open>unfollowed\<close> nor the sequence of remote calls attempted; the same holds for the
  realized actions of the whole of \<open>sync_followers\<close>.
\<close>

theorem delays_do_not_influence_actions:
  "followed (perform_actions cap (e\<lparr>random_uniform := uniform', random_state := state'\<rparr>) to_follow to_unfollow)
     = followed (perform_actions cap e to_follow to_unfollow)
   \<and> unfollowed (perform_actions cap (e\<lparr>random_uniform := uniform', random_state := state'\<rparr>) to_follow to_unfollow)
     = unfollowed (perform_actions cap e to_follow to_unfollow)
   \<and> filter is_call (events (perform_actions cap (e\<lparr>random_uniform := uniform', random_state := state'\<rparr>) to_follow to_unfollow))
     = filter is_call (events (perform_actions cap e to_follow to_unfollow))
   \<and> map_option realized (sync_followers (e\<lparr>random_uniform := uniform', random_state := state'\<rparr>))
     = map_option realized (sync_followers e)"
proof -
  let ?e' = "e\<lparr>random_uniform := uniform', random_state := state'\<rparr>"
  have ind: "\<And>cap tf tu.
       followed (perform_actions cap ?e' tf tu) = followed (perform_actions cap e tf tu)
     \<and> unfollowed (perform_actions cap ?e' tf tu) = unfollowed (perform_actions cap e tf tu)
     \<and> action_count (perform_actions cap ?e' tf tu) = action_count (perform_actions cap e tf tu)
     \<and> filter is_call (events (perform_actions cap ?e' tf tu)) = filter is_call (events (perform_actions cap e tf tu))"
    by (rule perform_actions_indep) simp_all
  have "map_option realized (sync_followers ?e') = map_option realized (sync_followers e)"
    by (simp add: sync_followers_def Let_def get_all_pages_random finish_run_followed finish_run_unfollowed ind
          split: option.splits prod.splits)
  then show ?thesis using ind by simp
qed

theorem delays_do_not_influence_actions_witness:
  "followed (perform_actions 2
       ((example_env (answer 200) (fails_for ''a'') (answer 204))
          \<lparr>random_uniform := (\<lambda>lo hi g. (5, g + 3)), random_state := 7\<rparr>)
       [''a'', ''b'', ''c''] [''x'']) = [''b'', ''c'']
   \<and> followed (perform_actions 2 (example_env (answer 200) (fails_for ''a'') (answer 204))
       [''a'', ''b'', ''c''] [''x'']) = [''b'', ''c'']"
proof -
  let ?e = "example_env (answer 200) (fails_for ''a'') (answer 204)"
  have f: "followed (perform_actions 2 ?e [''a'', ''b'', ''c''] [''x'']) = [''b'', ''c'']" by code_simp
  note inst = delays_do_not_influence_actions [where cap = 2 and e = ?e
      and uniform' = "\<lambda>lo hi g. (5, g + 3)" and state' = 7
      and to_follow = "[''a'', ''b'', ''c'']" and to_unfollow = "[''x'']"]
  from inst f show ?thesis by simp
qed

subsection \<open>The two policy lists\<close>

lemma follow_loop_all:
  "action_count s + length tf \<le> cap \<Longrightarrow>
     filter is_call (events (follow_loop cap e tf s)) =
       filter is_call (events s) @ map (\<lambda>u. Put (following_url u)) tf
     \<and> action_count (follow_loop cap e tf s) \<le> action_count s + length tf"
proof (induction tf arbitrary: s)
  case Nil
  then show ?case by simp
next
  case (Cons u tf)
  then have lt: "\<not> cap \<le> action_count s" by simp
  show ?case
  proof (cases "status_code (requests_put e (following_url u)) = 204")
    case True
    with lt Cons.prems Cons.IH [of "s\<lparr>rng := snd (random_uniform e ACTION_DELAY_MIN ACTION_DELAY_MAX (rng s)),
                 events := events s @ [Sleep (fst (random_uniform e ACTION_DELAY_MIN ACTION_DELAY_MAX (rng s))),
                                       Put (following_url u)],
                 followed := followed s @ [u], action_count := Suc (action_count s)\<rparr>"]
    show ?thesis by (simp add: loop_Cons)
  next
    case False
    with lt Cons.prems Cons.IH [of "s\<lparr>rng := snd (random_uniform e ACTION_DELAY_MIN ACTION_DELAY_MAX (rng s)),
                 events := events s @ [Sleep (fst (random_uniform e ACTION_DELAY_MIN ACTION_DELAY_MAX (rng s))),
                                       Put (following_url u)]\<rparr>"]
    show ?thesis by (simp add: loop_Cons)
  qed
qed

lemma unfollow_loop_all:
  "action_count s + length tu \<le> cap \<Longrightarrow>
     filter is_call (events (unfollow_loop cap e tu s)) =
       filter is_call (events s) @ map (\<lambda>u. Delete (following_url u)) tu"
proof (induction tu arbitrary: s)
  case Nil
  then show ?case by simp
next
  case (Cons u tu)
  then have lt: "\<not> cap \<le> action_count s" by simp
  show ?case
  proof (cases "status_code (requests_delete e (following_url u)) = 204")
    case True
    with lt Cons.prems Cons.IH [of "s\<lparr>rng := snd (random_uniform e ACTION_DELAY_MIN ACTION_DELAY_MAX (rng s)),
                 events := events s @ [Sleep (fst (random_uniform e ACTION_DELAY_MIN ACTION_DELAY_MAX (rng s))),
                                       Delete (following_url u)],
                 unfollowed := unfollowed s @ [u], action_count := Suc (action_count s)\<rparr>"]
    show ?thesis by (simp add: loop_Cons)
  next
    case False
    with lt Cons.prems Cons.IH [of "s\<lparr>rng := snd (random_uniform e ACTION_DELAY_MIN ACTION_DELAY_MAX (rng s)),
                 events := events s @ [Sleep (fst (random_uniform e ACTION_DELAY_MIN ACTION_DELAY_MAX (rng s))),
                                       Delete (following_url u)]\<rparr>"]
    show ?thesis by (simp add: loop_Cons)
  qed
qed

lemma perform_actions_all:
  assumes "length tf + length tu \<le> cap"
  shows "filter is_call (events (perform_actions cap e tf tu)) =
     map (\<lambda>u. Put (following_url u)) tf @ map (\<lambda>u. Delete (following_url u)) tu"
proof -
  let ?s0 = "\<lparr>followed = [], unfollowed = [], action_count = 0, rng = random_state e, events = []\<rparr> :: ('a, 'b) actions"
  let ?s1 = "follow_loop cap e tf ?s0"
  have a: "filter is_call (events ?s1) = map (\<lambda>u. Put (following_url u)) tf \<and> action_count ?s1 \<le> length tf"
    using follow_loop_all [of ?s0 tf cap e] assms by simp
  then have "action_count ?s1 + length tu \<le> cap" using assms by simp
  then have "filter is_call (events (unfollow_loop cap e tu ?s1)) =
       filter is_call (events ?s1) @ map (\<lambda>u. Delete (following_url u)) tu"
    by (rule unfollow_loop_all)
  then show ?thesis using a by (simp add: perform_actions_def Let_def)
qed

text \<open>
  C10, as stated, fails in its last clause: being on a list does not make a candidate
  attempted. With ten followers before her and every call succeeding, a whitelisted
  follower is a candidate whose follow call is never made, the cap of 10 being reached
  first; likewise a blacklisted account that does not follow, after ten realized
  follows. And a follower on both lists is no follow candidate, an account on both lists
  no unfollow candidate.
\<close>

theorem listed_candidate_not_attempted:
  "''alice'' \<in> set (fst (analysis [''f0'', ''f1'', ''f2'', ''f3'', ''f4'', ''f5'', ''f6'', ''f7'', ''f8'', ''f9'', ''alice''] [] {''alice''} {}))
   \<and> Put (following_url ''alice'') \<notin> set (events (perform_actions MAX_ACTIONS_PER_RUN (example_env (answer 200) (answer 204) (answer 204))
         (fst (analysis [''f0'', ''f1'', ''f2'', ''f3'', ''f4'', ''f5'', ''f6'', ''f7'', ''f8'', ''f9'', ''alice''] [] {''alice''} {}))
         (snd (analysis [''f0'', ''f1'', ''f2'', ''f3'', ''f4'', ''f5'', ''f6'', ''f7'', ''f8'', ''f9'', ''alice''] [] {''alice''} {}))))
   \<and> ''x'' \<in> set (snd (analysis [''f0'', ''f1'', ''f2'', ''f3'', ''f4'', ''f5'', ''f6'', ''f7'', ''f8'', ''f9''] [''x''] {} {''x''}))
   \<and> Delete (following_url ''x'') \<notin> set (events (perform_actions MAX_ACTIONS_PER_RUN (example_env (answer 200) (answer 204) (answer 204))
         (fst (analysis [''f0'', ''f1'', ''f2'', ''f3'', ''f4'', ''f5'', ''f6'', ''f7'', ''f8'', ''f9''] [''x''] {} {''x''}))
         (snd (analysis [''f0'', ''f1'', ''f2'', ''f3'', ''f4'', ''f5'', ''f6'', ''f7'', ''f8'', ''f9''] [''x''] {} {''x''}))))
   \<and> ''alice'' \<notin> set (fst (analysis [''alice''] [] {''alice''} {''alice''}))
   \<and> ''x'' \<notin> set (snd (analysis [] [''x''] {''x''} {''x''}))
   \<and> (case sync_followers ((example_env (serves [''f0'', ''f1'', ''f2'', ''f3'', ''f4'', ''f5'', ''f6'', ''f7'', ''f8'', ''f9'', ''alice''] []) (answer 204) (answer 204))
                \<lparr>whitelist_txt := Some ''alice''\<rparr>) of
         Some (Completed s) \<Rightarrow>
           Put (following_url ''alice'') \<notin> set (events s) \<and> ''alice'' \<notin> set (followed s)
       | _ \<Rightarrow> False)"
  by code_simp

text \<open>
  C10, amended. The whitelist has no effect on \<open>to_follow\<close> and the blacklist has none on
  \<open>to_unfollow\<close>. A whitelisted follower who is not followed back and not blacklisted
  is in \<open>to_follow\<close>; a blacklisted account that is followed, does not follow and is
  not whitelisted is in \<open>to_unfollow\<close>. Whitelisting someone who is not followed, or
  blacklisting someone who does not follow, changes neither list, hence nothing of the
  run. A candidate is attempted while the shared budget lasts: when the candidates fit
  the cap, or when fewer than \<open>cap\<close> actions were realized, the follow calls for all of
  \<open>to_follow\<close> and then the unfollow calls for all of \<open>to_unfollow\<close> are made.
\<close>

theorem policy_lists_do_not_cross:
  "fst (analysis followers following whitelist' blacklist) = fst (analysis followers following whitelist blacklist)
   \<and> snd (analysis followers following whitelist blacklist') = snd (analysis followers following whitelist blacklist)
   \<and> (u \<in> set followers \<and> lower u \<in> whitelist \<and> lower u \<notin> lower ` set following \<and> lower u \<notin> blacklist
        \<longrightarrow> u \<in> set (fst (analysis followers following whitelist blacklist)))
   \<and> (v \<in> set following \<and> lower v \<in> blacklist \<and> lower v \<notin> lower ` set followers \<and> lower v \<notin> whitelist
        \<longrightarrow> v \<in> set (snd (analysis followers following whitelist blacklist)))
   \<and> (lower u \<notin> lower ` set following
        \<longrightarrow> analysis followers following (insert (lower u) whitelist) blacklist
            = analysis followers following whitelist blacklist)
   \<and> (lower v \<notin> lower ` set followers
        \<longrightarrow> analysis followers following whitelist (insert (lower v) blacklist)
            = analysis followers following whitelist blacklist)
   \<and> (length (fst (analysis followers following whitelist blacklist))
        + length (snd (analysis followers following whitelist blacklist)) \<le> cap
        \<longrightarrow> filter is_call (events (perform_actions cap e
                (fst (analysis followers following whitelist blacklist))
                (snd (analysis followers following whitelist blacklist))))
            = map (\<lambda>u. Put (following_url u)) (fst (analysis followers following whitelist blacklist))
              @ map (\<lambda>u. Delete (following_url u)) (snd (analysis followers following whitelist blacklist)))
   \<and> (length (followed (perform_actions cap e
                (fst (analysis followers following whitelist blacklist))
                (snd (analysis followers following whitelist blacklist))))
        + length (unfollowed (perform_actions cap e
                (fst (analysis followers following whitelist blacklist))
                (snd (analysis followers following whitelist blacklist)))) < cap
        \<longrightarrow> filter is_call (events (perform_actions cap e
                (fst (analysis followers following whitelist blacklist))
                (snd (analysis followers following whitelist blacklist))))
            = map (\<lambda>u. Put (following_url u)) (fst (analysis followers following whitelist blacklist))
              @ map (\<lambda>u. Delete (following_url u)) (snd (analysis followers following whitelist blacklist)))"
proof (intro conjI impI)
  show "fst (analysis followers following whitelist' blacklist) = fst (analysis followers following whitelist blacklist)"
    by (simp add: analysis_filter)
  show "snd (analysis followers following whitelist blacklist') = snd (analysis followers following whitelist blacklist)"
    by (simp add: analysis_filter)
next
  assume "u \<in> set followers \<and> lower u \<in> whitelist \<and> lower u \<notin> lower ` set following \<and> lower u \<notin> blacklist"
  then show "u \<in> set (fst (analysis followers following whitelist blacklist))"
    by (simp add: analysis_filter)
next
  assume "v \<in> set following \<and> lower v \<in> blacklist \<and> lower v \<notin> lower ` set followers \<and> lower v \<notin> whitelist"
  then show "v \<in> set (snd (analysis followers following whitelist blacklist))"
    by (simp add: analysis_filter)
next
  assume a: "lower u \<notin> lower ` set following"
  have "filter (\<lambda>x. lower x \<notin> lower ` set followers \<and> lower x \<notin> insert (lower u) whitelist) following
      = filter (\<lambda>x. lower x \<notin> lower ` set followers \<and> lower x \<notin> whitelist) following"
    using a by (intro filter_cong refl) (metis imageI insert_iff)
  then show "analysis followers following (insert (lower u) whitelist) blacklist
            = analysis followers following whitelist blacklist"
    by (simp add: analysis_filter)
next
  assume a: "lower v \<notin> lower ` set followers"
  have "filter (\<lambda>x. lower x \<notin> lower ` set following \<and> lower x \<notin> insert (lower v) blacklist) followers
      = filter (\<lambda>x. lower x \<notin> lower ` set following \<and> lower x \<notin> blacklist) followers"
    using a by (intro filter_cong refl) (metis imageI insert_iff)
  then show "analysis followers following whitelist (insert (lower v) blacklist)
            = analysis followers following whitelist blacklist"
    by (simp add: analysis_filter)
next
  assume "length (fst (analysis followers following whitelist blacklist))
        + length (snd (analysis followers following whitelist blacklist)) \<le> cap"
  then show "filter is_call (events (perform_actions cap e
                (fst (analysis followers following whitelist blacklist))
                (snd (analysis followers following whitelist blacklist))))
            = map (\<lambda>u. Put (following_url u)) (fst (analysis followers following whitelist blacklist))
              @ map (\<lambda>u. Delete (following_url u)) (snd (analysis followers following whitelist blacklist))"
    by (rule perform_actions_all)
next
  assume "length (followed (perform_actions cap e
                (fst (analysis followers following whitelist blacklist))
                (snd (analysis followers following whitelist blacklist))))
        + length (unfollowed (perform_actions cap e
                (fst (analysis followers following whitelist blacklist))
                (snd (analysis followers following whitelist blacklist)))) < cap"
  then have "action_count (perform_actions cap e
                (fst (analysis followers following whitelist blacklist))
                (snd (analysis followers following whitelist blacklist))) < cap"
    by (simp add: perform_actions_count)
  then show "filter is_call (events (perform_actions cap e
                (fst (analysis followers following whitelist blacklist))
                (snd (analysis followers following whitelist blacklist))))
            = map (\<lambda>u. Put (following_url u)) (fst (analysis followers following whitelist blacklist))
              @ map (\<lambda>u. Delete (following_url u)) (snd (analysis followers following whitelist blacklist))"
    by (rule perform_actions_below_cap)
qed

theorem policy_lists_do_not_cross_witness:
  "''alice'' \<in> set (fst (analysis [''alice''] [''bob''] {''alice''} {''bob''}))
   \<and> ''bob'' \<in> set (snd (analysis [''alice''] [''bob''] {''alice''} {''bob''}))
   \<and> filter is_call (events (perform_actions 10 (example_env (answer 200) (answer 204) (answer 204))
          (fst (analysis [''alice''] [''bob''] {''alice''} {''bob''}))
          (snd (analysis [''alice''] [''bob''] {''alice''} {''bob''}))))
      = [Put (following_url ''alice''), Delete (following_url ''bob'')]"
proof -
  have v: "analysis [''alice''] [''bob''] {''alice''} {''bob''} = ([''alice''], [''bob''])"
    by code_simp
  have l: "lower ''alice'' = ''alice''" "lower ''bob'' = ''bob''" by code_simp+
  note inst = policy_lists_do_not_cross [where followers = "[''alice'']" and following = "[''bob'']"
      and whitelist = "{''alice''}" and blacklist = "{''bob''}" and u = "''alice''" and v = "''bob''"
      and cap = 10 and e = "example_env (answer 200) (answer 204) (answer 204)"]
  have p1: "''alice'' \<in> set [''alice''] \<and> lower ''alice'' \<in> {''alice''}
      \<and> lower ''alice'' \<notin> lower ` set [''bob''] \<and> lower ''alice'' \<notin> {''bob''}"
    by (simp add: l)
  have p2: "''bob'' \<in> set [''bob''] \<and> lower ''bob'' \<in> {''bob''}
      \<and> lower ''bob'' \<notin> lower ` set [''alice''] \<and> lower ''bob'' \<notin> {''alice''}"
    by (simp add: l)
  have p3: "length (fst (analysis [''alice''] [''bob''] {''alice''} {''bob''}))
        + length (snd (analysis [''alice''] [''bob''] {''alice''} {''bob''})) \<le> 10"
    by (simp add: v)
  from inst p1 have c1: "''alice'' \<in> set (fst (analysis [''alice''] [''bob''] {''alice''} {''bob''}))" by blast
  from inst p2 have c2: "''bob'' \<in> set (snd (analysis [''alice''] [''bob''] {''alice''} {''bob''}))" by blast
  from inst p3 have c3: "filter is_call (events (perform_actions 10 (example_env (answer 200) (answer 204) (answer 204))
          (fst (analysis [''alice''] [''bob''] {''alice''} {''bob''}))
          (snd (analysis [''alice''] [''bob''] {''alice''} {''bob''}))))
      = map (\<lambda>u. Put (following_url u)) (fst (analysis [''alice''] [''bob''] {''alice''} {''bob''}))
        @ map (\<lambda>u. Delete (following_url u)) (snd (analysis [''alice''] [''bob''] {''alice''} {''bob''}))" by blast
  show ?thesis using c1 c2 c3 by (simp add: v)
qed

subsection \<open>The history update\<close>

lemma foldl_append_follows:
  "foldl (\<lambda>h u. h\<lparr>follows := follows h @ [\<lparr>user = u, timestamp = now\<rparr>]\<rparr>) h fs =
     h\<lparr>follows := follows h @ map (\<lambda>u. \<lparr>user = u, timestamp = now\<rparr>) fs\<rparr>"
  by (induction fs arbitrary: h) simp_all

lemma foldl_append_unfollows:
  "foldl (\<lambda>h u. h\<lparr>unfollows := unfollows h @ [\<lparr>user = u, timestamp = now\<rparr>]\<rparr>) h us =
     h\<lparr>unfollows := unfollows h @ map (\<lambda>u. \<lparr>user = u, timestamp = now\<rparr>) us\<rparr>"
  by (induction us arbitrary: h) simp_all

lemma update_history_eq:
  "update_history h fs us now =
     \<lparr>follows = last_entries 1000 (follows h @ map (\<lambda>u. \<lparr>user = u, timestamp = now\<rparr>) fs),
      unfollows = last_entries 1000 (unfollows h @ map (\<lambda>u. \<lparr>user = u, timestamp = now\<rparr>) us),
      last_run = Some now\<rparr>"
  by (simp add: update_history_def Let_def foldl_append_follows foldl_append_unfollows)

lemma last_entries_suffix: "suffix (last_entries n xs) xs"
  by (simp add: last_entries_def suffix_drop)

lemma last_entries_length: "length (last_entries n xs) = min n (length xs)"
  by (simp add: last_entries_def)

lemma finish_run_saves:
  "Save (update_history (load_history (history_json e)) (followed s) (unfollowed s) (now_isoformat e))
       \<in> set (events (finish_run e followers following s))"
  by (simp add: finish_run_def Let_def)

text \<open>
  C5. The history update appends one record, stamped with the run's timestamp, per
  followed user to \<open>follows\<close> and one per unfollowed user to \<open>unfollows\<close>, in order,
  sets \<open>last_run\<close> to the timestamp, and keeps of each sequence its newest 1000
  entries: the result is the appended sequence without its first
  \<open>length - 1000\<close> entries, a suffix of it of length \<open>min 1000 length\<close>. The run saves
  the history updated in this way from the loaded one, which is the empty document when
  no file exists.
\<close>

theorem history_update_appends_and_truncates:
  "follows (update_history h fs us now) =
     drop (length (follows h) + length fs - 1000) (follows h @ map (\<lambda>u. \<lparr>user = u, timestamp = now\<rparr>) fs)
   \<and> unfollows (update_history h fs us now) =
     drop (length (unfollows h) + length us - 1000) (unfollows h @ map (\<lambda>u. \<lparr>user = u, timestamp = now\<rparr>) us)
   \<and> last_run (update_history h fs us now) = Some now
   \<and> suffix (follows (update_history h fs us now)) (follows h @ map (\<lambda>u. \<lparr>user = u, timestamp = now\<rparr>) fs)
   \<and> suffix (unfollows (update_history h fs us now)) (unfollows h @ map (\<lambda>u. \<lparr>user = u, timestamp = now\<rparr>) us)
   \<and> length (follows (update_history h fs us now)) = min 1000 (length (follows h) + length fs)
   \<and> length (unfollows (update_history h fs us now)) = min 1000 (length (unfollows h) + length us)
   \<and> Save (update_history (load_history (history_json e)) (followed s) (unfollowed s) (now_isoformat e))
       \<in> set (events (finish_run e followers following s))
   \<and> load_history None = \<lparr>follows = [], unfollows = [], last_run = None\<rparr>"
proof (intro conjI)
  show "follows (update_history h fs us now) =
     drop (length (follows h) + length fs - 1000) (follows h @ map (\<lambda>u. \<lparr>user = u, timestamp = now\<rparr>) fs)"
    by (simp add: update_history_eq last_entries_def)
  show "unfollows (update_history h fs us now) =
     drop (length (unfollows h) + length us - 1000) (unfollows h @ map (\<lambda>u. \<lparr>user = u, timestamp = now\<rparr>) us)"
    by (simp add: update_history_eq last_entries_def)
  show "last_run (update_history h fs us now) = Some now"
    by (simp add: update_history_eq)
  show "suffix (follows (update_history h fs us now)) (follows h @ map (\<lambda>u. \<lparr>user = u, timestamp = now\<rparr>) fs)"
    by (simp add: update_history_eq last_entries_suffix)
  show "suffix (unfollows (update_history h fs us now)) (unfollows h @ map (\<lambda>u. \<lparr>user = u, timestamp = now\<rparr>) us)"
    by (simp add: update_history_eq last_entries_suffix)
  show "length (follows (update_history h fs us now)) = min 1000 (length (follows h) + length fs)"
    by (simp add: update_history_eq last_entries_length)
  show "length (unfollows (update_history h fs us now)) = min 1000 (length (unfollows h) + length us)"
    by (simp add: update_history_eq last_entries_length)
  show "Save (update_history (load_history (history_json e)) (followed s) (unfollowed s) (now_isoformat e))
       \<in> set (events (finish_run e followers following s))"
    by (rule finish_run_saves)
  show "load_history None = \<lparr>follows = [], unfollows = [], last_run = None\<rparr>"
    by (simp add: load_history_def)
qed

theorem history_update_appends_and_truncates_witness:
  "follows (update_history
      \<lparr>follows = replicate 1000 \<lparr>user = ''old'', timestamp = ''t0''\<rparr>, unfollows = [], last_run = None\<rparr>
      [''new''] [] ''t1'')
     = replicate 999 \<lparr>user = ''old'', timestamp = ''t0''\<rparr> @ [\<lparr>user = ''new'', timestamp = ''t1''\<rparr>]
   \<and> length (follows (update_history
      \<lparr>follows = replicate 1000 \<lparr>user = ''old'', timestamp = ''t0''\<rparr>, unfollows = [], last_run = None\<rparr>
      [''new''] [] ''t1'')) = 1000
   \<and> last_run (update_history
      \<lparr>follows = replicate 1000 \<lparr>user = ''old'', timestamp = ''t0''\<rparr>, unfollows = [], last_run = None\<rparr>
      [''new''] [] ''t1'') = Some ''t1''"
proof -
  let ?h = "\<lparr>follows = replicate 1000 \<lparr>user = ''old'', timestamp = ''t0''\<rparr>, unfollows = [], last_run = None\<rparr>"
  note inst = history_update_appends_and_truncates [where h = ?h and fs = "[''new'']" and us = "[]"
      and now = "''t1''"
      and e = "example_env (answer 200) (answer 204) (answer 204)"
      and s = "\<lparr>followed = [], unfollowed = [], action_count = 0, rng = 0, events = []\<rparr>"
      and followers = "[]" and following = "[]"]
  from inst have a: "follows (update_history ?h [''new''] [] ''t1'') =
     drop (length (follows ?h) + length [''new''] - 1000)
       (follows ?h @ map (\<lambda>u. \<lparr>user = u, timestamp = ''t1''\<rparr>) [''new''])"
    by (rule conjunct1)
  from inst have b: "last_run (update_history ?h [''new''] [] ''t1'') = Some ''t1''"
    by (elim conjE)
  have c: "follows (update_history ?h [''new''] [] ''t1'') =
      replicate 999 \<lparr>user = ''old'', timestamp = ''t0''\<rparr> @ [\<lparr>user = ''new'', timestamp = ''t1''\<rparr>]"
    using a by simp
  show ?thesis using b by (simp add: c)
qed

subsection \<open>The policy files\<close>

lemma strip_decompose:
  "s = takeWhile isspace s @ strip s @ rev (takeWhile isspace (rev (dropWhile isspace s)))"
proof -
  let ?t = "dropWhile isspace s"
  have "rev (takeWhile isspace (rev ?t) @ dropWhile isspace (rev ?t)) = ?t"
    by (simp only: takeWhile_dropWhile_id rev_rev_ident)
  then have t: "strip s @ rev (takeWhile isspace (rev ?t)) = ?t"
    by (simp only: rev_append strip_def)
  have "takeWhile isspace s @ ?t = s" by (rule takeWhile_dropWhile_id)
  then show ?thesis using t by simp
qed

lemma strip_last: "strip s \<noteq> [] \<Longrightarrow> \<not> isspace (last (strip s))"
  by (simp add: strip_def last_rev hd_dropWhile)

lemma strip_hd:
  assumes "strip s \<noteq> []"
  shows "\<not> isspace (hd (strip s))"
proof -
  let ?t = "dropWhile isspace s"
  have "rev (takeWhile isspace (rev ?t) @ dropWhile isspace (rev ?t)) = ?t"
    by (simp only: takeWhile_dropWhile_id rev_rev_ident)
  then have t: "strip s @ rev (takeWhile isspace (rev ?t)) = ?t"
    by (simp only: rev_append strip_def)
  have "?t \<noteq> []"
  proof
    assume "?t = []"
    then have "strip s = rev (dropWhile isspace (rev []))" by (simp only: strip_def)
    then show False using assms by simp
  qed
  then have "\<not> isspace (hd ?t)" by (rule hd_dropWhile)
  moreover have "hd ?t = hd (strip s)" using t assms by (metis hd_append2)
  ultimately show ?thesis by simp
qed

lemma of_char_literals:
  "of_char (CHR ''A'') = (65::nat)" "of_char (CHR ''Z'') = (90::nat)"
  "of_char (CHR 0xC0) = (192::nat)" "of_char (CHR 0xDE) = (222::nat)"
  "of_char (CHR 0x09) = (9::nat)" "of_char (CHR 0x0D) = (13::nat)"
  "of_char (CHR 0x1C) = (28::nat)" "of_char (CHR 0x1F) = (31::nat)"
  "of_char (CHR '' '') = (32::nat)" "of_char (CHR 0x85) = (133::nat)"
  "of_char (CHR 0xA0) = (160::nat)" "of_char (CHR 0xD7) = (215::nat)"
  by simp_all

lemma eq_char_iff: "(c = d) = (of_char c = (of_char d :: nat))"
  by (metis char_of_char)

lemma lower_char_of_char:
  "of_char (lower_char c) =
     (if (65 \<le> (of_char c :: nat) \<and> of_char c \<le> (90::nat))
         \<or> (192 \<le> (of_char c :: nat) \<and> of_char c \<le> (222::nat) \<and> of_char c \<noteq> (215::nat))
      then of_char c + 32 else (of_char c :: nat))"
  by (auto simp add: lower_char_def less_eq_char_def eq_char_iff [of c])

lemma isspace_of_char:
  "isspace c =
     ((9 \<le> (of_char c :: nat) \<and> of_char c \<le> (13::nat)) \<or> (28 \<le> (of_char c :: nat) \<and> of_char c \<le> (31::nat))
      \<or> of_char c = (32::nat) \<or> of_char c = (133::nat) \<or> of_char c = (160::nat))"
  by (simp add: isspace_def less_eq_char_def eq_char_iff [of c])

lemma lower_char_idem: "lower_char (lower_char c) = lower_char c"
  by (simp add: eq_char_iff [of "lower_char (lower_char c)"] lower_char_of_char)

lemma isspace_lower_char: "isspace (lower_char c) = isspace c"
  by (simp add: isspace_of_char lower_char_of_char)

lemma lower_idem: "lower (lower s) = lower s"
  by (simp add: lower_def lower_char_idem)

lemma lower_Nil_iff: "lower s = [] \<longleftrightarrow> s = []"
  by (simp add: lower_def)

lemma hd_lower: "s \<noteq> [] \<Longrightarrow> hd (lower s) = lower_char (hd s)"
  by (simp add: lower_def hd_map)

lemma last_lower: "s \<noteq> [] \<Longrightarrow> last (lower s) = lower_char (last s)"
  by (simp add: lower_def last_map)

lemma concat_file_lines: "concat (file_lines s) = s"
  by (induction s) (auto split: list.splits)

lemma file_lines_nonempty: "l \<in> set (file_lines s) \<Longrightarrow> l \<noteq> []"
  by (induction s arbitrary: l) (auto split: list.splits if_splits)

lemma file_lines_newline_last:
  "l \<in> set (file_lines s) \<Longrightarrow> CHR 0x0A \<notin> set (butlast l)"
proof (induction s arbitrary: l)
  case Nil
  then show ?case by simp
next
  case (Cons c cs)
  show ?case
  proof (cases "c = CHR 0x0A")
    case True
    then show ?thesis using Cons by auto
  next
    case False
    show ?thesis
    proof (cases "file_lines cs")
      case Nil
      then show ?thesis using Cons.prems False by simp
    next
      case (Cons l' ls)
      have l'ne: "l' \<noteq> []" using file_lines_nonempty [of l' cs] Cons by simp
      show ?thesis
        using Cons.prems False Cons Cons.IH [of l'] Cons.IH [of l] l'ne by auto
    qed
  qed
qed

lemma file_lines_terminated:
  "l \<in> set (butlast (file_lines s)) \<Longrightarrow> last l = CHR 0x0A"
proof (induction s arbitrary: l)
  case Nil
  then show ?case by simp
next
  case (Cons c cs)
  show ?case
  proof (cases "c = CHR 0x0A")
    case True
    then show ?thesis using Cons by (auto split: if_splits)
  next
    case False
    show ?thesis
    proof (cases "file_lines cs")
      case Nil
      then show ?thesis using Cons.prems False by simp
    next
      case (Cons l' ls)
      have l'ne: "l' \<noteq> []" using file_lines_nonempty [of l' cs] Cons by simp
      show ?thesis
        using Cons.prems False Cons Cons.IH [of l'] Cons.IH [of l] l'ne
        by (auto split: if_splits)
    qed
  qed
qed

lemma universal_newlines_no_cr: "CHR 0x0D \<notin> set (universal_newlines s)"
  by (induction s rule: universal_newlines.induct) auto

lemma universal_newlines_id: "CHR 0x0D \<notin> set s \<Longrightarrow> universal_newlines s = s"
  by (induction s rule: universal_newlines.induct) auto

lemma startswith_hash: "startswith l ''#'' \<longleftrightarrow> (l \<noteq> [] \<and> hd l = CHR ''#'')"
  by (cases l) (simp_all add: startswith_def)

lemma load_list_file_Some:
  "load_list_file (Some content) =
     {lower (strip line) | line.
        line \<in> set (file_lines (universal_newlines content)) \<and> strip line \<noteq> [] \<and> \<not> startswith line ''#''}"
  by (auto simp add: load_list_file_def)

lemma load_list_file_elem:
  assumes "x \<in> load_list_file (Some content)"
  shows "x \<noteq> [] \<and> \<not> isspace (hd x) \<and> \<not> isspace (last x) \<and> lower x = x"
proof -
  from assms obtain line where x: "x = lower (strip line)" and ne: "strip line \<noteq> []"
    by (auto simp add: load_list_file_Some)
  show ?thesis
    using ne strip_hd [OF ne] strip_last [OF ne]
    by (simp add: x lower_Nil_iff hd_lower last_lower isspace_lower_char lower_idem)
qed

lemma strip_frame:
  "\<exists>a b. s = a @ strip s @ b \<and> list_all isspace a \<and> list_all isspace b"
proof (intro exI conjI)
  show "s = takeWhile isspace s @ strip s @ rev (takeWhile isspace (rev (dropWhile isspace s)))"
    by (rule strip_decompose)
  show "list_all isspace (takeWhile isspace s)"
    by (simp add: list_all_iff) (meson set_takeWhileD)
  show "list_all isspace (rev (takeWhile isspace (rev (dropWhile isspace s))))"
    by (simp add: list_all_iff) (meson set_takeWhileD)
qed

lemma file_lines_no_cr:
  "line \<in> set (file_lines (universal_newlines content)) \<Longrightarrow> CHR 0x0D \<notin> set line"
proof
  assume l: "line \<in> set (file_lines (universal_newlines content))" and c: "CHR 0x0D \<in> set line"
  then have "CHR 0x0D \<in> set (concat (file_lines (universal_newlines content)))" by auto
  then show False by (simp only: concat_file_lines universal_newlines_no_cr)
qed

text \<open>
  C4. \<open>load_list_file\<close> gives the empty set for an absent file. For a file that exists
  it gives exactly the set of the lower-cased, whitespace-trimmed lines of the text, over
  the lines that are kept: a line is skipped when nothing is left of it after trimming
  (an empty or blank line), and when it starts with \<open>#\<close>, a test main.py makes on the line
  as read, so that a \<open>#\<close> after leading whitespace does not make a comment. Every
  identifier of the result is non-empty, begins and ends with a character that is not
  whitespace, and is its own lower-case form. The lines are the pieces of the text (read
  with universal newlines, so without carriage returns) between line feeds: put together
  they give the text back, none is empty, a line feed stands only at the end of a line,
  and every line but the last ends in one. Trimming removes whitespace only, at both
  ends, and all of it there; lower-casing goes character by character.
\<close>

theorem policy_list_loader:
  "load_list_file None = {}
   \<and> load_list_file (Some content) =
       {lower (strip line) | line.
          line \<in> set (file_lines (universal_newlines content)) \<and> strip line \<noteq> [] \<and> \<not> startswith line ''#''}
   \<and> (\<forall>x \<in> load_list_file (Some content).
         x \<noteq> [] \<and> \<not> isspace (hd x) \<and> \<not> isspace (last x) \<and> lower x = x)
   \<and> concat (file_lines (universal_newlines content)) = universal_newlines content
   \<and> (\<forall>line \<in> set (file_lines (universal_newlines content)).
         line \<noteq> [] \<and> CHR 0x0A \<notin> set (butlast line) \<and> CHR 0x0D \<notin> set line)
   \<and> (\<forall>line \<in> set (butlast (file_lines (universal_newlines content))). last line = CHR 0x0A)
   \<and> (CHR 0x0D \<notin> set content \<longrightarrow> universal_newlines content = content)
   \<and> (\<exists>a b. line = a @ strip line @ b \<and> list_all isspace a \<and> list_all isspace b)
   \<and> (strip line \<noteq> [] \<longrightarrow> \<not> isspace (hd (strip line)) \<and> \<not> isspace (last (strip line)))
   \<and> (startswith line ''#'' \<longleftrightarrow> line \<noteq> [] \<and> hd line = CHR ''#'')
   \<and> lower line = map lower_char line"
proof (intro conjI ballI impI)
  show "load_list_file None = {}" by (simp add: load_list_file_def)
  show "load_list_file (Some content) =
       {lower (strip line) | line.
          line \<in> set (file_lines (universal_newlines content)) \<and> strip line \<noteq> [] \<and> \<not> startswith line ''#''}"
    by (rule load_list_file_Some)
  show "concat (file_lines (universal_newlines content)) = universal_newlines content"
    by (rule concat_file_lines)
  show "\<exists>a b. line = a @ strip line @ b \<and> list_all isspace a \<and> list_all isspace b"
    by (rule strip_frame)
  show "startswith line ''#'' \<longleftrightarrow> line \<noteq> [] \<and> hd line = CHR ''#''"
    by (rule startswith_hash)
  show "lower line = map lower_char line" by (rule lower_def)
next
  fix x assume "x \<in> load_list_file (Some content)"
  then show "x \<noteq> []" and "\<not> isspace (hd x)" and "\<not> isspace (last x)" and "lower x = x"
    using load_list_file_elem by blast+
next
  fix l assume l: "l \<in> set (file_lines (universal_newlines content))"
  show "l \<noteq> []" using l by (rule file_lines_nonempty)
  show "CHR 0x0A \<notin> set (butlast l)" using l by (rule file_lines_newline_last)
  show "CHR 0x0D \<notin> set l" using l by (rule file_lines_no_cr)
next
  fix l assume "l \<in> set (butlast (file_lines (universal_newlines content)))"
  then show "last l = CHR 0x0A" by (rule file_lines_terminated)
next
  assume "CHR 0x0D \<notin> set content"
  then show "universal_newlines content = content" by (rule universal_newlines_id)
next
  assume ne: "strip line \<noteq> []"
  show "\<not> isspace (hd (strip line))" using ne by (rule strip_hd)
  show "\<not> isspace (last (strip line))" using ne by (rule strip_last)
qed


theorem policy_list_loader_witness:
  "load_list_file (Some ''Alice\<newline># a comment\<newline>\<newline>  Bob-2  \<newline>   \<newline> #indented\<newline>carol'')
     = {''alice'', ''bob-2'', ''#indented'', ''carol''}
   \<and> ''bob-2'' \<in> load_list_file (Some ''Alice\<newline># a comment\<newline>\<newline>  Bob-2  \<newline>   \<newline> #indented\<newline>carol'')
   \<and> \<not> isspace (hd ''bob-2'') \<and> \<not> isspace (last ''bob-2'') \<and> lower ''bob-2'' = ''bob-2''
   \<and> strip ''  Bob-2  \<newline>'' = ''Bob-2''
   \<and> \<not> isspace (hd (strip ''  Bob-2  \<newline>''))
   \<and> universal_newlines ''Alice\<newline># a comment\<newline>\<newline>  Bob-2  \<newline>   \<newline> #indented\<newline>carol''
       = ''Alice\<newline># a comment\<newline>\<newline>  Bob-2  \<newline>   \<newline> #indented\<newline>carol''"
proof -
  let ?c = "''Alice\<newline># a comment\<newline>\<newline>  Bob-2  \<newline>   \<newline> #indented\<newline>carol''"
  note inst = policy_list_loader [where content = ?c and line = "''  Bob-2  \<newline>''"]
  have v: "load_list_file (Some ?c) = {''alice'', ''bob-2'', ''#indented'', ''carol''}"
    by code_simp
  have m: "''bob-2'' \<in> load_list_file (Some ?c)" by (simp add: v)
  have s: "strip ''  Bob-2  \<newline>'' = ''Bob-2''" by code_simp
  have cr: "CHR 0x0D \<notin> set ?c" by simp
  from inst m have a: "\<not> isspace (hd ''bob-2'') \<and> \<not> isspace (last ''bob-2'') \<and> lower ''bob-2'' = ''bob-2''"
    by blast
  from inst cr have b: "universal_newlines ?c = ?c" by blast
  from inst s have c: "\<not> isspace (hd (strip ''  Bob-2  \<newline>''))" by simp
  show ?thesis using v m a b c s by simp
qed

subsection \<open>Pagination\<close>

declare str_nat.simps [simp del]

lemma pages_loop_step:
  "pages_loop get url page users =
     (if status_code (get (page_url url page)) \<noteq> 200 then Some users
      else if json (get (page_url url page)) = [] then Some users
      else if length (json (get (page_url url page))) < per_page
           then Some (users @ json (get (page_url url page)))
      else pages_loop get url (page + 1) (users @ json (get (page_url url page))))"
  by (subst pages_loop.simps) (simp add: Let_def page_url_def)

lemma full_page_tests:
  "full_page get url page \<longleftrightarrow>
     \<not> status_code (get (page_url url page)) \<noteq> 200
     \<and> \<not> json (get (page_url url page)) = []
     \<and> \<not> length (json (get (page_url url page))) < per_page"
  by (auto simp add: full_page_def per_page_def)

lemma pages_loop_stops:
  assumes "page \<le> k" and "\<forall>p. page \<le> p \<and> p < k \<longrightarrow> full_page get url p" and "\<not> full_page get url k"
  shows "pages_loop get url page users =
     Some (users @ concat (map (\<lambda>p. json (get (page_url url p))) [page..<k])
           @ (if status_code (get (page_url url k)) = 200 then json (get (page_url url k)) else []))"
  using assms
proof (induction "k - page" arbitrary: page users)
  case 0
  then have pk: "page = k" by simp
  show ?case
    using "0.prems"(3) unfolding pk
    by (subst pages_loop_step) (auto simp add: full_page_tests)
next
  case (Suc n)
  then have lt: "page < k" by simp
  then have full: "full_page get url page" using Suc.prems(2) by simp
  have step: "pages_loop get url page users =
      pages_loop get url (page + 1) (users @ json (get (page_url url page)))"
    using full by (subst pages_loop_step) (simp add: full_page_tests)
  have ih: "pages_loop get url (page + 1) (users @ json (get (page_url url page))) =
     Some ((users @ json (get (page_url url page)))
           @ concat (map (\<lambda>p. json (get (page_url url p))) [page + 1..<k])
           @ (if status_code (get (page_url url k)) = 200 then json (get (page_url url k)) else []))"
  proof (rule Suc.hyps(1))
    show "n = k - (page + 1)" using Suc.hyps(2) by simp
    show "page + 1 \<le> k" using lt by simp
    show "\<forall>p. page + 1 \<le> p \<and> p < k \<longrightarrow> full_page get url p" using Suc.prems(2) by simp
    show "\<not> full_page get url k" by (rule Suc.prems(3))
  qed
  have upt: "[page..<k] = page # [page + 1..<k]" using lt by (simp add: upt_conv_Cons)
  show ?case unfolding step ih upt by simp
qed

lemma pages_loop_returns_stop:
  assumes "pages_loop get url page users = Some y"
  shows "\<exists>k. page \<le> k \<and> \<not> full_page get url k"
proof (rule pages_loop.raw_induct
    [where P = "\<lambda>get url page users y. \<exists>k. page \<le> k \<and> \<not> full_page get url k", OF _ assms],
    goal_cases)
  case (1 f get url page users y)
  show ?case
  proof (cases "full_page get url page")
    case False
    then show ?thesis by blast
  next
    case True
    then have "f get url (page + 1) (users @ json (get (page_url url page))) = Some y"
      using 1(2) by (simp add: Let_def full_page_tests page_url_def split: if_splits)
    then obtain k where "page + 1 \<le> k" "\<not> full_page get url k" using 1(1) by blast
    then show ?thesis by (intro exI [of _ k]) simp
  qed
qed

lemma first_stop:
  assumes "page \<le> k" and "\<not> full_page get url k"
  shows "\<exists>k'. page \<le> k' \<and> k' \<le> k \<and> (\<forall>p. page \<le> p \<and> p < k' \<longrightarrow> full_page get url p) \<and> \<not> full_page get url k'"
proof -
  let ?P = "\<lambda>k. page \<le> k \<and> \<not> full_page get url k"
  have P: "?P k" using assms by simp
  have a: "?P (LEAST k. ?P k)" using P by (rule LeastI)
  have b: "\<And>p. p < (LEAST k. ?P k) \<Longrightarrow> \<not> ?P p" by (rule not_less_Least)
  have c: "(LEAST k. ?P k) \<le> k" using P by (rule Least_le)
  show ?thesis using a b c by (intro exI [of _ "LEAST k. ?P k"]) blast
qed

lemma get_all_pages_stops:
  assumes "1 \<le> k" and "\<forall>p. 1 \<le> p \<and> p < k \<longrightarrow> full_page get url p" and "\<not> full_page get url k"
  shows "get_all_pages get url =
     Some (concat (map (\<lambda>p. json (get (page_url url p))) [1..<k])
           @ (if status_code (get (page_url url k)) = 200 then json (get (page_url url k)) else []))"
  using pages_loop_stops [OF assms, of "[]"] by (simp add: get_all_pages_def)

lemma get_all_pages_returns_iff:
  "(\<exists>users. get_all_pages get url = Some users) \<longleftrightarrow> (\<exists>k. 1 \<le> k \<and> \<not> full_page get url k)"
proof
  assume "\<exists>users. get_all_pages get url = Some users"
  then obtain users where "pages_loop get url 1 [] = Some users" by (auto simp add: get_all_pages_def)
  then show "\<exists>k. 1 \<le> k \<and> \<not> full_page get url k" by (rule pages_loop_returns_stop)
next
  assume "\<exists>k. 1 \<le> k \<and> \<not> full_page get url k"
  then obtain k where "1 \<le> k" "\<not> full_page get url k" by blast
  then obtain k' where "1 \<le> k'" "\<forall>p. 1 \<le> p \<and> p < k' \<longrightarrow> full_page get url p" "\<not> full_page get url k'"
    using first_stop [of 1 k get url] by blast
  then show "\<exists>users. get_all_pages get url = Some users"
    using get_all_pages_stops [of k' get url] by simp
qed

lemma get_all_pages_later_pages:
  assumes k: "1 \<le> k" and stop: "\<not> full_page get url k"
    and same: "\<forall>p. 1 \<le> p \<and> p \<le> k \<longrightarrow> get' (page_url url p) = get (page_url url p)"
  shows "get_all_pages get' url = get_all_pages get url"
proof -
  obtain k' where k': "1 \<le> k'" "k' \<le> k" "\<forall>p. 1 \<le> p \<and> p < k' \<longrightarrow> full_page get url p"
      "\<not> full_page get url k'"
    using first_stop [OF k stop] by blast
  have eq: "\<And>p. 1 \<le> p \<Longrightarrow> p \<le> k' \<Longrightarrow> get' (page_url url p) = get (page_url url p)"
    using same k'(2) by simp
  have full: "\<And>p. 1 \<le> p \<Longrightarrow> p \<le> k' \<Longrightarrow> full_page get' url p = full_page get url p"
    by (simp add: full_page_def eq)
  have a: "get_all_pages get url =
     Some (concat (map (\<lambda>p. json (get (page_url url p))) [1..<k'])
           @ (if status_code (get (page_url url k')) = 200 then json (get (page_url url k')) else []))"
    using k'(1,3,4) by (rule get_all_pages_stops)
  have b: "get_all_pages get' url =
     Some (concat (map (\<lambda>p. json (get' (page_url url p))) [1..<k'])
           @ (if status_code (get' (page_url url k')) = 200 then json (get' (page_url url k')) else []))"
  proof (rule get_all_pages_stops)
    show "1 \<le> k'" by (rule k'(1))
    show "\<forall>p. 1 \<le> p \<and> p < k' \<longrightarrow> full_page get' url p" using k'(3) full by simp
    show "\<not> full_page get' url k'" using k'(1,4) full by simp
  qed
  have c: "map (\<lambda>p. json (get' (page_url url p))) [1..<k'] = map (\<lambda>p. json (get (page_url url p))) [1..<k']"
    by (rule map_cong) (simp_all add: eq)
  show ?thesis unfolding a b c using eq [of k'] k'(1) by simp
qed

text \<open>
  C6. \<open>get_all_pages\<close> requests page 1, 2, ... of the endpoint and goes on to the next
  page exactly when the answer has status 200 and is a full page (not empty, not shorter
  than \<open>per_page\<close>). At the first page \<open>k\<close> that is not such, it returns: the users of the
  pages before it, followed by the users of page \<open>k\<close> when that page has status 200 (a
  short page; an empty one adds nothing), and the users of the pages before it alone when
  page \<open>k\<close> has another status, which is then a returned value like any other. It
  returns if and only if such a page exists, and what the endpoint would answer for a
  later page has no influence on the result.
\<close>

theorem pagination_stops_at_short_page_or_failure:
  "(1 \<le> k \<and> (\<forall>p. 1 \<le> p \<and> p < k \<longrightarrow> full_page get url p) \<and> \<not> full_page get url k \<longrightarrow>
      get_all_pages get url =
        Some (concat (map (\<lambda>p. json (get (page_url url p))) [1..<k])
              @ (if status_code (get (page_url url k)) = 200 then json (get (page_url url k)) else [])))
   \<and> ((\<exists>users. get_all_pages get url = Some users) \<longleftrightarrow> (\<exists>k. 1 \<le> k \<and> \<not> full_page get url k))
   \<and> (1 \<le> k \<and> \<not> full_page get url k
        \<and> (\<forall>p. 1 \<le> p \<and> p \<le> k \<longrightarrow> get' (page_url url p) = get (page_url url p)) \<longrightarrow>
      get_all_pages get' url = get_all_pages get url)
   \<and> (full_page get url k \<longleftrightarrow>
        \<not> status_code (get (page_url url k)) \<noteq> 200
        \<and> \<not> json (get (page_url url k)) = []
        \<and> \<not> length (json (get (page_url url k))) < per_page)
   \<and> page_url url k = url @ ''?page='' @ str_nat k @ ''&per_page=100''"
proof (intro conjI impI)
  assume "1 \<le> k \<and> (\<forall>p. 1 \<le> p \<and> p < k \<longrightarrow> full_page get url p) \<and> \<not> full_page get url k"
  then show "get_all_pages get url =
        Some (concat (map (\<lambda>p. json (get (page_url url p))) [1..<k])
              @ (if status_code (get (page_url url k)) = 200 then json (get (page_url url k)) else []))"
    by (intro get_all_pages_stops) simp_all
next
  show "(\<exists>users. get_all_pages get url = Some users) \<longleftrightarrow> (\<exists>k. 1 \<le> k \<and> \<not> full_page get url k)"
    by (rule get_all_pages_returns_iff)
next
  assume "1 \<le> k \<and> \<not> full_page get url k
        \<and> (\<forall>p. 1 \<le> p \<and> p \<le> k \<longrightarrow> get' (page_url url p) = get (page_url url p))"
  then show "get_all_pages get' url = get_all_pages get url"
    by (intro get_all_pages_later_pages [of k]) simp_all
next
  show "full_page get url k \<longleftrightarrow>
        \<not> status_code (get (page_url url k)) \<noteq> 200
        \<and> \<not> json (get (page_url url k)) = []
        \<and> \<not> length (json (get (page_url url k))) < per_page"
    by (rule full_page_tests)
next
  have "str_nat per_page = ''100''" by code_simp
  then show "page_url url k = url @ ''?page='' @ str_nat k @ ''&per_page=100''"
    by (simp add: page_url_def)
qed

theorem pagination_stops_at_short_page_or_failure_witness:
  "get_all_pages
     (serves_pages ''u''
        [\<lparr>status_code = 200, json = replicate 100 ''x''\<rparr>,
         \<lparr>status_code = 200, json = replicate 100 ''y''\<rparr>,
         \<lparr>status_code = 500, json = [''z'']\<rparr>]) ''u''
     = Some (replicate 100 ''x'' @ replicate 100 ''y'')
   \<and> get_all_pages
     (serves_pages ''u''
        [\<lparr>status_code = 200, json = replicate 100 ''x''\<rparr>,
         \<lparr>status_code = 200, json = replicate 100 ''y''\<rparr>,
         \<lparr>status_code = 500, json = [''z'']\<rparr>,
         \<lparr>status_code = 200, json = [''w'']\<rparr>]) ''u''
     = Some (replicate 100 ''x'' @ replicate 100 ''y'')"
proof -
  let ?get = "serves_pages ''u''
        [\<lparr>status_code = 200, json = replicate 100 ''x''\<rparr>,
         \<lparr>status_code = 200, json = replicate 100 ''y''\<rparr>,
         \<lparr>status_code = 500, json = [''z'']\<rparr>]"
  let ?get' = "serves_pages ''u''
        [\<lparr>status_code = 200, json = replicate 100 ''x''\<rparr>,
         \<lparr>status_code = 200, json = replicate 100 ''y''\<rparr>,
         \<lparr>status_code = 500, json = [''z'']\<rparr>,
         \<lparr>status_code = 200, json = [''w'']\<rparr>]"
  note inst = pagination_stops_at_short_page_or_failure [where k = 3 and get = ?get and get' = ?get' and url = "''u''"]
  have p1: "?get (page_url ''u'' 1) = \<lparr>status_code = 200, json = replicate 100 ''x''\<rparr>" by code_simp
  have p2: "?get (page_url ''u'' 2) = \<lparr>status_code = 200, json = replicate 100 ''y''\<rparr>" by code_simp
  have p3: "?get (page_url ''u'' 3) = \<lparr>status_code = 500, json = [''z'']\<rparr>" by code_simp
  have q1: "?get' (page_url ''u'' 1) = \<lparr>status_code = 200, json = replicate 100 ''x''\<rparr>" by code_simp
  have q2: "?get' (page_url ''u'' 2) = \<lparr>status_code = 200, json = replicate 100 ''y''\<rparr>" by code_simp
  have q3: "?get' (page_url ''u'' 3) = \<lparr>status_code = 500, json = [''z'']\<rparr>" by code_simp
  have cases3: "\<And>p::nat. 1 \<le> p \<Longrightarrow> p \<le> 3 \<Longrightarrow> p = 1 \<or> p = 2 \<or> p = 3" by arith
  have p1': "?get (page_url ''u'' (Suc 0)) = \<lparr>status_code = 200, json = replicate 100 ''x''\<rparr>"
    using p1 by (simp only: One_nat_def)
  have f1: "full_page ?get ''u'' 1" unfolding full_page_def p1 by (simp add: per_page_def)
  have f2: "full_page ?get ''u'' 2" unfolding full_page_def p2 by (simp add: per_page_def)
  have full: "\<forall>p. 1 \<le> p \<and> p < 3 \<longrightarrow> full_page ?get ''u'' p"
  proof (intro allI impI)
    fix p :: nat assume "1 \<le> p \<and> p < 3"
    then have "p = 1 \<or> p = 2" by arith
    then show "full_page ?get ''u'' p" using f1 f2 by blast
  qed
  have stop: "\<not> full_page ?get ''u'' 3" unfolding full_page_def p3 by simp
  have s1: "?get' (page_url ''u'' 1) = ?get (page_url ''u'' 1)" by (simp only: p1 q1)
  have s2: "?get' (page_url ''u'' 2) = ?get (page_url ''u'' 2)" by (simp only: p2 q2)
  have s3: "?get' (page_url ''u'' 3) = ?get (page_url ''u'' 3)" by (simp only: p3 q3)
  have same: "\<forall>p. 1 \<le> p \<and> p \<le> 3 \<longrightarrow> ?get' (page_url ''u'' p) = ?get (page_url ''u'' p)"
  proof (intro allI impI)
    fix p :: nat assume "1 \<le> p \<and> p \<le> 3"
    then have "p = 1 \<or> p = 2 \<or> p = 3" using cases3 by blast
    then show "?get' (page_url ''u'' p) = ?get (page_url ''u'' p)"
      using s1 s2 s3 by blast
  qed
  have upt: "[1..<3] = [Suc 0, 2::nat]" by (simp add: upt_rec)
  from inst full stop
  have a: "get_all_pages ?get ''u'' =
        Some (concat (map (\<lambda>p. json (?get (page_url ''u'' p))) [1..<3])
              @ (if status_code (?get (page_url ''u'' 3)) = 200 then json (?get (page_url ''u'' 3)) else []))"
    by simp
  from inst stop same have b: "get_all_pages ?get' ''u'' = get_all_pages ?get ''u''" by simp
  have c: "get_all_pages ?get ''u'' = Some (replicate 100 ''x'' @ replicate 100 ''y'')"
    unfolding a upt by (simp add: p1' p2 p3)
  show ?thesis using b c by simp
qed

subsection \<open>The report\<close>

lemma foldl_append_each:
  "foldl (\<lambda>message x. message @ f x) message xs = message @ concat (map f xs)"
  by (induction xs arbitrary: message) simp_all

lemma report_entry_fun:
  "report_entry = (\<lambda>user. ''  '' @ GLYPH_BULLET @ '' @'' @ user @ ''\<newline>'')"
  by (rule ext) (simp add: report_entry_def)

lemma format_telegram_report_parts:
  "format_telegram_report now fs us st =
     report_header now st
     @ report_section (GLYPH_CHECK @ '' <b>Followed Back'') fs
     @ report_section (GLYPH_CROSS @ '' <b>Unfollowed'') us
     @ (if fs = [] \<and> us = [] then report_no_changes else [])"
  by (simp add: format_telegram_report_def Let_def foldl_append_each report_header_def
        report_section_def report_no_changes_def report_entry_fun)

lemma str_int_examples: "str_int 12 = ''12''" "str_int 2 = ''2''"
  by code_simp+

text \<open>
  C7. The text \<open>format_telegram_report\<close> builds is the header (title, the clock reading,
  the followers and the following count), then the section of the followed users, then the
  section of the unfollowed users, then, only when both lists are empty, the line that says
  no changes were needed. A section is absent for an empty list; otherwise it is a title
  line with the length of the list, one line for each of the first 10 users in order, for
  a list of more than 10 a line that tells how many more there are, and a blank line. With
  both lists empty the report is the header and the no-changes line. With 12 followed and
  none unfollowed it is the header, the title line, the lines of the first 10 users and the
  line \<open>... and 2 more\<close>, with no section for the unfollowed users.
\<close>

theorem report_lists_first_ten_and_remaining_count:
  "format_telegram_report now fs us st =
     report_header now st
     @ report_section (GLYPH_CHECK @ '' <b>Followed Back'') fs
     @ report_section (GLYPH_CROSS @ '' <b>Unfollowed'') us
     @ (if fs = [] \<and> us = [] then report_no_changes else [])
   \<and> report_header now st =
       GLYPH_SYNC @ '' <b>GitHub Follower Sync Report</b>\<newline>''
       @ GLYPH_CALENDAR @ '' '' @ now @ ''\<newline>\<newline>''
       @ GLYPH_CHART @ '' <b>Stats:</b>\<newline>''
       @ ''  '' @ GLYPH_BULLET @ '' Followers: '' @ str_int (stats_followers st) @ ''\<newline>''
       @ ''  '' @ GLYPH_BULLET @ '' Following: '' @ str_int (stats_following st) @ ''\<newline>\<newline>''
   \<and> report_section title [] = []
   \<and> (xs \<noteq> [] \<and> length xs \<le> 10 \<longrightarrow>
        report_section title xs =
          title @ '' ('' @ str_int (int (length xs)) @ ''):</b>\<newline>''
          @ concat (map (\<lambda>user. ''  '' @ GLYPH_BULLET @ '' @'' @ user @ ''\<newline>'') xs)
          @ ''\<newline>'')
   \<and> (10 < length xs \<longrightarrow>
        report_section title xs =
          title @ '' ('' @ str_int (int (length xs)) @ ''):</b>\<newline>''
          @ concat (map (\<lambda>user. ''  '' @ GLYPH_BULLET @ '' @'' @ user @ ''\<newline>'') (take 10 xs))
          @ ''  ... and '' @ str_int (int (length xs) - 10) @ '' more\<newline>''
          @ ''\<newline>'')
   \<and> format_telegram_report now [] [] st =
       report_header now st @ GLYPH_SPARKLES @ '' No changes needed - everything is in sync!''
   \<and> (length fs = 12 \<longrightarrow>
        format_telegram_report now fs [] st =
          report_header now st
          @ GLYPH_CHECK @ '' <b>Followed Back (12):</b>\<newline>''
          @ concat (map (\<lambda>user. ''  '' @ GLYPH_BULLET @ '' @'' @ user @ ''\<newline>'') (take 10 fs))
          @ ''  ... and 2 more\<newline>''
          @ ''\<newline>'')"
proof (intro conjI impI)
  show "format_telegram_report now fs us st =
     report_header now st
     @ report_section (GLYPH_CHECK @ '' <b>Followed Back'') fs
     @ report_section (GLYPH_CROSS @ '' <b>Unfollowed'') us
     @ (if fs = [] \<and> us = [] then report_no_changes else [])"
    by (rule format_telegram_report_parts)
  show "report_header now st =
       GLYPH_SYNC @ '' <b>GitHub Follower Sync Report</b>\<newline>''
       @ GLYPH_CALENDAR @ '' '' @ now @ ''\<newline>\<newline>''
       @ GLYPH_CHART @ '' <b>Stats:</b>\<newline>''
       @ ''  '' @ GLYPH_BULLET @ '' Followers: '' @ str_int (stats_followers st) @ ''\<newline>''
       @ ''  '' @ GLYPH_BULLET @ '' Following: '' @ str_int (stats_following st) @ ''\<newline>\<newline>''"
    by (rule report_header_def)
  show "report_section title [] = []" by (simp add: report_section_def)
  show "format_telegram_report now [] [] st =
       report_header now st @ GLYPH_SPARKLES @ '' No changes needed - everything is in sync!''"
    by (simp add: format_telegram_report_parts report_section_def report_no_changes_def)
next
  assume "xs \<noteq> [] \<and> length xs \<le> 10"
  then show "report_section title xs =
          title @ '' ('' @ str_int (int (length xs)) @ ''):</b>\<newline>''
          @ concat (map (\<lambda>user. ''  '' @ GLYPH_BULLET @ '' @'' @ user @ ''\<newline>'') xs)
          @ ''\<newline>''"
    by (simp add: report_section_def report_entry_fun)
next
  assume "10 < length xs"
  then show "report_section title xs =
          title @ '' ('' @ str_int (int (length xs)) @ ''):</b>\<newline>''
          @ concat (map (\<lambda>user. ''  '' @ GLYPH_BULLET @ '' @'' @ user @ ''\<newline>'') (take 10 xs))
          @ ''  ... and '' @ str_int (int (length xs) - 10) @ '' more\<newline>''
          @ ''\<newline>''"
    by (auto simp add: report_section_def report_entry_fun)
next
  assume l: "length fs = 12"
  then have ne: "fs \<noteq> []" by auto
  show "format_telegram_report now fs [] st =
          report_header now st
          @ GLYPH_CHECK @ '' <b>Followed Back (12):</b>\<newline>''
          @ concat (map (\<lambda>user. ''  '' @ GLYPH_BULLET @ '' @'' @ user @ ''\<newline>'') (take 10 fs))
          @ ''  ... and 2 more\<newline>''
          @ ''\<newline>''"
    using ne by (simp add: format_telegram_report_parts report_section_def report_entry_fun l str_int_examples)
qed

theorem report_lists_first_ten_and_remaining_count_witness:
  "format_telegram_report ''2025-01-01 00:00:00''
       [''a'', ''b'', ''c'', ''d'', ''e'', ''f'', ''g'', ''h'', ''i'', ''j'', ''k'', ''l''] []
       \<lparr>stats_followers = 12, stats_following = 12\<rparr> =
     report_header ''2025-01-01 00:00:00'' \<lparr>stats_followers = 12, stats_following = 12\<rparr>
     @ GLYPH_CHECK @ '' <b>Followed Back (12):</b>\<newline>''
     @ ''  '' @ GLYPH_BULLET @ '' @a\<newline>'' @ ''  '' @ GLYPH_BULLET @ '' @b\<newline>''
     @ ''  '' @ GLYPH_BULLET @ '' @c\<newline>'' @ ''  '' @ GLYPH_BULLET @ '' @d\<newline>''
     @ ''  '' @ GLYPH_BULLET @ '' @e\<newline>'' @ ''  '' @ GLYPH_BULLET @ '' @f\<newline>''
     @ ''  '' @ GLYPH_BULLET @ '' @g\<newline>'' @ ''  '' @ GLYPH_BULLET @ '' @h\<newline>''
     @ ''  '' @ GLYPH_BULLET @ '' @i\<newline>'' @ ''  '' @ GLYPH_BULLET @ '' @j\<newline>''
     @ ''  ... and 2 more\<newline>'' @ ''\<newline>''
   \<and> report_section (GLYPH_CROSS @ '' <b>Unfollowed'') [''x'', ''y''] =
       GLYPH_CROSS @ '' <b>Unfollowed (2):</b>\<newline>''
       @ ''  '' @ GLYPH_BULLET @ '' @x\<newline>'' @ ''  '' @ GLYPH_BULLET @ '' @y\<newline>'' @ ''\<newline>''"
proof -
  let ?fs = "[''a'', ''b'', ''c'', ''d'', ''e'', ''f'', ''g'', ''h'', ''i'', ''j'', ''k'', ''l'']"
  note inst = report_lists_first_ten_and_remaining_count
    [where now = "''2025-01-01 00:00:00''" and fs = ?fs and us = "[]"
       and st = "\<lparr>stats_followers = 12, stats_following = 12\<rparr>"
       and title = "GLYPH_CROSS @ '' <b>Unfollowed''" and xs = "[''x'', ''y'']"]
  have l: "length ?fs = 12" by simp
  have x: "[''x'', ''y''] \<noteq> [] \<and> length [''x'', ''y''] \<le> 10" by simp
  from inst l have a: "format_telegram_report ''2025-01-01 00:00:00'' ?fs []
       \<lparr>stats_followers = 12, stats_following = 12\<rparr> =
          report_header ''2025-01-01 00:00:00'' \<lparr>stats_followers = 12, stats_following = 12\<rparr>
          @ GLYPH_CHECK @ '' <b>Followed Back (12):</b>\<newline>''
          @ concat (map (\<lambda>user. ''  '' @ GLYPH_BULLET @ '' @'' @ user @ ''\<newline>'') (take 10 ?fs))
          @ ''  ... and 2 more\<newline>''
          @ ''\<newline>''"
    by blast
  from inst x have b: "report_section (GLYPH_CROSS @ '' <b>Unfollowed'') [''x'', ''y''] =
          (GLYPH_CROSS @ '' <b>Unfollowed'') @ '' ('' @ str_int (int (length [''x'', ''y''])) @ ''):</b>\<newline>''
          @ concat (map (\<lambda>user. ''  '' @ GLYPH_BULLET @ '' @'' @ user @ ''\<newline>'') [''x'', ''y''])
          @ ''\<newline>''"
    by blast
  have two: "str_int 2 = ''2''" by code_simp
  show ?thesis unfolding a b by (simp add: two)
qed

end
